theory Spec2Isabelle
  imports Main "HOL-Library.Word"
begin

section \<open>Data model\<close>

text \<open>
  The search engine of mgrep (\<^verbatim>\<open>boyer_moore.c\<close>) works on byte arrays. A C array
  \<^verbatim>\<open>const uint8_t *\<close> together with its extent is a list of 8-bit words. The
  platform modelled is LP64: \<^verbatim>\<open>size_t\<close> is an unsigned 64-bit word, on which
  \<open>+\<close> and \<open>-\<close> wrap around, and \<^verbatim>\<open>int\<close> / \<^verbatim>\<open>int32_t\<close> is a signed
  32-bit integer. Values of C type \<^verbatim>\<open>int\<close> are modelled as HOL integers: signed
  overflow is undefined in C, and for patterns of at most \<open>2 ^ 30\<close> bytes every
  \<^verbatim>\<open>int\<close> the code computes lies between \<open>-1\<close> and \<open>2 ^ 31 - 1\<close>
  (the largest is a good-suffix entry, bounded by twice the pattern length minus one).
\<close>

type_synonym byte = "8 word"
type_synonym size_t = "64 word"

text \<open>\<^verbatim>\<open>#define NOT_FOUND ((size_t)-1)\<close> and \<^verbatim>\<open>#define ALPHABET_LEN 256\<close>\<close>

definition NOT_FOUND :: size_t where
  "NOT_FOUND = - 1"

definition ALPHABET_LEN :: int where
  "ALPHABET_LEN = 256"

text \<open>\<^verbatim>\<open>#define max(a, b) ((a < b) ? b : a)\<close>\<close>

definition max_macro :: "int \<Rightarrow> int \<Rightarrow> int" where
  "max_macro a b = (if a < b then b else a)"

text \<open>
  The conversion of a \<^verbatim>\<open>size_t\<close> to \<^verbatim>\<open>int\<close> in \<^verbatim>\<open>int j = patlen-1\<close>: the low 32
  bits, read as two's complement.
\<close>

definition int_of_size_t :: "size_t \<Rightarrow> int" where
  "int_of_size_t x = sint (ucast x :: 32 word)"

text \<open>
  A read outside an array is undefined behaviour in C. The scanner's model makes it a
  value of its own, so that a property of in-bounds access is a property of the result.
\<close>

datatype fault = OutOfBounds

section \<open>Table builder\<close>

subsection \<open>Bad-character table\<close>

text \<open>
  An array is a list: a read is \<open>xs ! i\<close>, a write is \<open>xs[i := v]\<close>, and a C \<^verbatim>\<open>int\<close>
  used as an index is converted with \<open>nat\<close>. The table builder is called with
  \<^verbatim>\<open>patlen\<close> the length of a non-empty pattern and with arrays of 256 and of
  \<^verbatim>\<open>patlen\<close> entries. Every index it uses is then inside its array: the loop bounds
  give this for \<^verbatim>\<open>delta1[i]\<close>, \<^verbatim>\<open>pat[i]\<close>, \<^verbatim>\<open>delta2[p]\<close> and inside \<^verbatim>\<open>is_prefix\<close>, a
  byte is below 256, and the indices computed from \<^verbatim>\<open>suffix_length\<close> are the subject
  of lemma \<open>suffix_length_indices\<close> below.

  \<^verbatim>\<open>make_delta1\<close> writes into a caller-allocated array of \<^verbatim>\<open>ALPHABET_LEN\<close> ints whose
  initial contents are indeterminate; the model takes that array as an argument and
  returns it updated. The two \<^verbatim>\<open>for\<close> loops are the two recursive functions.
\<close>

function delta1_init :: "int \<Rightarrow> int \<Rightarrow> int list \<Rightarrow> int list" where
  "delta1_init patlen i delta1 =
     (if i < ALPHABET_LEN
      then delta1_init patlen (i + 1) (delta1[nat i := patlen])
      else delta1)"
  by pat_completeness auto
termination
  by (relation "measure (\<lambda>(patlen, i, delta1). nat (ALPHABET_LEN - i))") auto

declare delta1_init.simps [simp del]

function delta1_fill :: "byte list \<Rightarrow> int \<Rightarrow> int \<Rightarrow> int list \<Rightarrow> int list" where
  "delta1_fill pat patlen i delta1 =
     (if i < patlen - 1
      then delta1_fill pat patlen (i + 1) (delta1[unat (pat ! nat i) := patlen - 1 - i])
      else delta1)"
  by pat_completeness auto
termination
  by (relation "measure (\<lambda>(pat, patlen, i, delta1). nat (patlen - 1 - i))") auto

declare delta1_fill.simps [simp del]

definition make_delta1 :: "int list \<Rightarrow> byte list \<Rightarrow> int \<Rightarrow> int list" where
  "make_delta1 delta1 pat patlen = delta1_fill pat patlen 0 (delta1_init patlen 0 delta1)"

subsection \<open>Good-suffix table\<close>

text \<open>\<^verbatim>\<open>is_prefix\<close>: the loop returns 0 at the first difference, 1 when it runs out.\<close>

function is_prefix_loop :: "byte list \<Rightarrow> int \<Rightarrow> int \<Rightarrow> int \<Rightarrow> bool" where
  "is_prefix_loop word pos suffixlen i =
     (if i < suffixlen
      then (if word ! nat i \<noteq> word ! nat (pos + i) then False
            else is_prefix_loop word pos suffixlen (i + 1))
      else True)"
  by pat_completeness auto
termination
  by (relation "measure (\<lambda>(word, pos, suffixlen, i). nat (suffixlen - i))") auto

declare is_prefix_loop.simps [simp del]

definition is_prefix :: "byte list \<Rightarrow> int \<Rightarrow> int \<Rightarrow> bool" where
  "is_prefix word wordlen pos = is_prefix_loop word pos (wordlen - pos) 0"

text \<open>
  \<^verbatim>\<open>suffix_length\<close>: the loop condition compares the bytes first and tests
  \<^verbatim>\<open>i < pos\<close> second; its body is empty.
\<close>

function suffix_length_loop :: "byte list \<Rightarrow> int \<Rightarrow> int \<Rightarrow> int \<Rightarrow> int" where
  "suffix_length_loop word wordlen pos i =
     (if word ! nat (pos - i) = word ! nat (wordlen - 1 - i) \<and> i < pos
      then suffix_length_loop word wordlen pos (i + 1)
      else i)"
  by pat_completeness auto
termination
  by (relation "measure (\<lambda>(word, wordlen, pos, i). nat (pos - i))") auto

declare suffix_length_loop.simps [simp del]

definition suffix_length :: "byte list \<Rightarrow> int \<Rightarrow> int \<Rightarrow> int" where
  "suffix_length word wordlen pos = suffix_length_loop word wordlen pos 0"

text \<open>
  \<^verbatim>\<open>make_delta2\<close>: the first loop runs \<^verbatim>\<open>p\<close> down from \<^verbatim>\<open>patlen-1\<close> to 0 and carries
  \<^verbatim>\<open>last_prefix_index\<close>; the second runs \<^verbatim>\<open>p\<close> up from 0 to \<^verbatim>\<open>patlen-2\<close>.
\<close>

function delta2_loop1 :: "byte list \<Rightarrow> int \<Rightarrow> int \<Rightarrow> int \<Rightarrow> int list \<Rightarrow> int list" where
  "delta2_loop1 pat patlen p last_prefix_index delta2 =
     (if p \<ge> 0
      then (let last_prefix_index' =
                  (if is_prefix pat patlen (p + 1) then p + 1 else last_prefix_index)
            in delta2_loop1 pat patlen (p - 1) last_prefix_index'
                 (delta2[nat p := last_prefix_index' + (patlen - 1 - p)]))
      else delta2)"
  by pat_completeness auto
termination
  by (relation "measure (\<lambda>(pat, patlen, p, last_prefix_index, delta2). nat (p + 1))") auto

declare delta2_loop1.simps [simp del]

function delta2_loop2 :: "byte list \<Rightarrow> int \<Rightarrow> int \<Rightarrow> int list \<Rightarrow> int list" where
  "delta2_loop2 pat patlen p delta2 =
     (if p < patlen - 1
      then (let slen = suffix_length pat patlen p
            in delta2_loop2 pat patlen (p + 1)
                 (if pat ! nat (p - slen) \<noteq> pat ! nat (patlen - 1 - slen)
                  then delta2[nat (patlen - 1 - slen) := patlen - 1 - p + slen]
                  else delta2))
      else delta2)"
  by pat_completeness auto
termination
  by (relation "measure (\<lambda>(pat, patlen, p, delta2). nat (patlen - 1 - p))") auto

declare delta2_loop2.simps [simp del]

definition make_delta2 :: "int list \<Rightarrow> byte list \<Rightarrow> int \<Rightarrow> int list" where
  "make_delta2 delta2 pat patlen =
     delta2_loop2 pat patlen 0 (delta2_loop1 pat patlen (patlen - 1) (patlen - 1) delta2)"

section \<open>Scanner\<close>

text \<open>
  The inner loop \<^verbatim>\<open>while (j >= 0 && (string[i] == pat[j])) { --i; --j; }\<close>. The test
  \<^verbatim>\<open>j >= 0\<close> comes first, and only then are \<^verbatim>\<open>string[i]\<close> and \<^verbatim>\<open>pat[j]\<close> read;
  \<^verbatim>\<open>--i\<close> is a subtraction on \<^verbatim>\<open>size_t\<close> and wraps below zero. The loop returns
  the final \<^verbatim>\<open>i\<close> and \<^verbatim>\<open>j\<close>.
\<close>

function bm_inner :: "byte list \<Rightarrow> byte list \<Rightarrow> size_t \<Rightarrow> int \<Rightarrow> fault + size_t \<times> int" where
  "bm_inner string pat i j =
     (if j \<ge> 0
      then (if unat i < length string \<and> nat j < length pat
            then (if string ! unat i = pat ! nat j
                  then bm_inner string pat (i - 1) (j - 1)
                  else Inr (i, j))
            else Inl OutOfBounds)
      else Inr (i, j))"
  by pat_completeness auto
termination
  by (relation "measure (\<lambda>(string, pat, i, j). nat (j + 1))") auto

declare bm_inner.simps [simp del]

text \<open>
  The outer loop \<^verbatim>\<open>while (i < stringlen)\<close>. Nothing in the C bounds the number of its
  iterations when \<^verbatim>\<open>i\<close> wraps around, so it is a partial function: \<open>None\<close> is a run that
  never returns. \<^verbatim>\<open>i += max(delta1[string[i]], delta2[j])\<close> converts the \<^verbatim>\<open>int\<close> to
  \<^verbatim>\<open>size_t\<close> and adds modulo \<open>2 ^ 64\<close>.
\<close>

partial_function (option) bm_loop ::
  "byte list \<Rightarrow> size_t \<Rightarrow> byte list \<Rightarrow> size_t \<Rightarrow> int list \<Rightarrow> int list \<Rightarrow> size_t
     \<Rightarrow> (fault + size_t) option" where
  "bm_loop string stringlen pat patlen delta1 delta2 i =
     (if i < stringlen
      then (case bm_inner string pat i (int_of_size_t (patlen - 1)) of
              Inl e \<Rightarrow> Some (Inl e)
            | Inr (i', j) \<Rightarrow>
                if j < 0 then Some (Inr (i' + 1))
                else if unat i' < length string
                        \<and> unat (string ! unat i') < length delta1
                        \<and> nat j < length delta2
                then bm_loop string stringlen pat patlen delta1 delta2
                       (i' + of_int (max_macro (delta1 ! unat (string ! unat i'))
                                               (delta2 ! nat j)))
                else Some (Inl OutOfBounds))
      else Some (Inr NOT_FOUND))"

declare bm_loop.simps [code]

definition bm_search ::
  "byte list \<Rightarrow> size_t \<Rightarrow> byte list \<Rightarrow> size_t \<Rightarrow> int list \<Rightarrow> int list
     \<Rightarrow> (fault + size_t) option" where
  "bm_search string stringlen pat patlen delta1 delta2 =
     bm_loop string stringlen pat patlen delta1 delta2 (patlen - 1)"

section \<open>Repeated-scan driver\<close>

text \<open>
  The loop of \<^verbatim>\<open>main\<close> that finds all matches in one mapped file:
  \<^verbatim>\<open>
  size_t last = 0; size_t next = 0;
  while ((next = bm_search(file + last, file_size - last, pattern, pattern_size,
                           delta1, delta2)) != NOT_FOUND) {
      print_match(file, last + next, ...);
      last += next + pattern_size;
      count++;
  }
  \<close>
  \<^verbatim>\<open>file + last\<close> is the suffix of the file from \<^verbatim>\<open>last\<close> on. The model collects, in
  order, the offsets \<^verbatim>\<open>last + next\<close> handed to \<^verbatim>\<open>print_match\<close>; the
  variable \<^verbatim>\<open>last\<close> is \<open>lastpos\<close> here.
\<close>

partial_function (option) scan_loop ::
  "byte list \<Rightarrow> size_t \<Rightarrow> byte list \<Rightarrow> size_t \<Rightarrow> int list \<Rightarrow> int list \<Rightarrow> size_t
     \<Rightarrow> size_t list \<Rightarrow> (fault + size_t list) option" where
  "scan_loop file file_size pattern pattern_size delta1 delta2 lastpos reported =
     (case bm_search (drop (unat lastpos) file) (file_size - lastpos)
             pattern pattern_size delta1 delta2 of
        None \<Rightarrow> None
      | Some (Inl e) \<Rightarrow> Some (Inl e)
      | Some (Inr next) \<Rightarrow>
          if next \<noteq> NOT_FOUND
          then scan_loop file file_size pattern pattern_size delta1 delta2
                 (lastpos + (next + pattern_size)) (reported @ [lastpos + next])
          else Some (Inr reported))"

declare scan_loop.simps [code]

definition scan_file ::
  "byte list \<Rightarrow> size_t \<Rightarrow> byte list \<Rightarrow> size_t \<Rightarrow> int list \<Rightarrow> int list
     \<Rightarrow> (fault + size_t list) option" where
  "scan_file file file_size pattern pattern_size delta1 delta2 =
     scan_loop file file_size pattern pattern_size delta1 delta2 0 []"

section \<open>Specification vocabulary\<close>

text \<open>
  The notions the properties are stated with; none of them is part of the program.
  \<open>occurs_at B P s\<close>: the bytes of \<open>B\<close> from offset \<open>s\<close> on are exactly \<open>P\<close>.
  \<open>naive_search\<close> tries every offset from \<open>s\<close> upwards and returns the first
  occurrence. \<open>naive_scan\<close> is the greedy left-to-right scan for non-overlapping
  occurrences: after an occurrence at \<open>s\<close> it resumes at \<open>s + length P\<close>.
\<close>

definition occurs_at :: "byte list \<Rightarrow> byte list \<Rightarrow> nat \<Rightarrow> bool" where
  "occurs_at B P s \<longleftrightarrow> s + length P \<le> length B \<and> take (length P) (drop s B) = P"

function naive_search :: "byte list \<Rightarrow> byte list \<Rightarrow> nat \<Rightarrow> nat option" where
  "naive_search B P s =
     (if s + length P \<le> length B
      then (if take (length P) (drop s B) = P then Some s else naive_search B P (s + 1))
      else None)"
  by pat_completeness auto
termination
  by (relation "measure (\<lambda>(B, P, s). length B + 1 - s)") auto

declare naive_search.simps [simp del]

function naive_scan :: "byte list \<Rightarrow> byte list \<Rightarrow> nat \<Rightarrow> nat list" where
  "naive_scan B P s =
     (if P \<noteq> [] \<and> s + length P \<le> length B
      then (if take (length P) (drop s B) = P
            then s # naive_scan B P (s + length P)
            else naive_scan B P (s + 1))
      else [])"
  by pat_completeness auto
termination
proof (relation "measure (\<lambda>(B, P, s). length B + 1 - s)")
  fix B P :: "byte list" and s :: nat
  assume "P \<noteq> [] \<and> s + length P \<le> length B"
  then have "0 < length P" "s + length P \<le> length B" by simp_all
  then have "length B + 1 - (s + length P) < length B + 1 - s" by arith
  then show "((B, P, s + length P), (B, P, s)) \<in> measure (\<lambda>(B, P, s). length B + 1 - s)"
    by simp
qed auto

declare naive_scan.simps [simp del]

section \<open>The bad-character table\<close>

lemma length_delta1_init: "length (delta1_init patlen i d) = length d"
  by (induction patlen i d rule: delta1_init.induct) (subst delta1_init.simps, simp)

lemma delta1_init_nth:
  "0 \<le> i \<Longrightarrow> k < length d \<Longrightarrow> int (length d) = ALPHABET_LEN \<Longrightarrow>
   delta1_init patlen i d ! k = (if i \<le> int k then patlen else d ! k)"
proof (induction patlen i d rule: delta1_init.induct)
  case (1 patlen i delta1)
  show ?case
  proof (cases "i < ALPHABET_LEN")
    case True
    have "delta1_init patlen i delta1 ! k = delta1_init patlen (i + 1) (delta1[nat i := patlen]) ! k"
      using True by (subst delta1_init.simps) simp
    also have "\<dots> = (if i + 1 \<le> int k then patlen else delta1[nat i := patlen] ! k)"
      using "1.IH" [OF True] "1.prems" by simp
    also have "\<dots> = (if i \<le> int k then patlen else delta1 ! k)"
      using "1.prems" by (auto simp: nth_list_update)
    finally show ?thesis .
  next
    case False
    then show ?thesis using "1.prems" by (subst delta1_init.simps) auto
  qed
qed

lemma length_delta1_fill: "length (delta1_fill pat patlen i d) = length d"
  by (induction pat patlen i d rule: delta1_fill.induct) (subst delta1_fill.simps, simp)

lemma delta1_fill_absent:
  "0 \<le> i \<Longrightarrow> \<forall>k. i \<le> k \<and> k < patlen - 1 \<longrightarrow> pat ! nat k \<noteq> v \<Longrightarrow>
   delta1_fill pat patlen i d ! unat v = d ! unat v"
proof (induction pat patlen i d rule: delta1_fill.induct)
  case (1 pat patlen i delta1)
  show ?case
  proof (cases "i < patlen - 1")
    case True
    have ne: "pat ! nat i \<noteq> v" using True "1.prems" by simp
    then have ne': "unat (pat ! nat i) \<noteq> unat v" by (simp add: word_unat_eq_iff)
    have "delta1_fill pat patlen i delta1 ! unat v
        = delta1_fill pat patlen (i + 1) (delta1[unat (pat ! nat i) := patlen - 1 - i]) ! unat v"
      using True by (subst delta1_fill.simps) simp
    also have "\<dots> = delta1[unat (pat ! nat i) := patlen - 1 - i] ! unat v"
      using "1.IH" [OF True] "1.prems" by simp
    also have "\<dots> = delta1 ! unat v" using ne' by simp
    finally show ?thesis .
  next
    case False
    then show ?thesis by (subst delta1_fill.simps) simp
  qed
qed

lemma delta1_fill_rightmost:
  "0 \<le> i \<Longrightarrow> i \<le> r \<Longrightarrow> r < patlen - 1 \<Longrightarrow> pat ! nat r = v \<Longrightarrow> unat v < length d \<Longrightarrow>
   \<forall>k. r < k \<and> k < patlen - 1 \<longrightarrow> pat ! nat k \<noteq> v \<Longrightarrow>
   delta1_fill pat patlen i d ! unat v = patlen - 1 - r"
proof (induction pat patlen i d rule: delta1_fill.induct)
  case (1 pat patlen i delta1)
  have lt: "i < patlen - 1" using "1.prems" by simp
  have step: "delta1_fill pat patlen i delta1 ! unat v
        = delta1_fill pat patlen (i + 1) (delta1[unat (pat ! nat i) := patlen - 1 - i]) ! unat v"
    using lt by (subst delta1_fill.simps) simp
  show ?case
  proof (cases "i = r")
    case True
    have "delta1_fill pat patlen (i + 1) (delta1[unat (pat ! nat i) := patlen - 1 - i]) ! unat v
        = delta1[unat (pat ! nat i) := patlen - 1 - i] ! unat v"
      using "1.prems" True by (intro delta1_fill_absent) auto
    also have "\<dots> = patlen - 1 - r" using "1.prems" True by simp
    finally show ?thesis using step by simp
  next
    case False
    then show ?thesis using step "1.IH" [OF lt] "1.prems" by simp
  qed
qed

lemma unat_byte_less: "unat (v :: byte) < 256"
  using unsigned_less [of v, where 'a = nat] by simp

lemma rightmost_ex:
  fixes r hi :: int
  shows "r < hi \<Longrightarrow> P r \<Longrightarrow> \<exists>k. r \<le> k \<and> k < hi \<and> P k \<and> (\<forall>k'. k < k' \<and> k' < hi \<longrightarrow> \<not> P k')"
proof (induction "nat (hi - r)" arbitrary: r rule: less_induct)
  case less
  show ?case
  proof (cases "\<exists>k'. r < k' \<and> k' < hi \<and> P k'")
    case True
    then obtain k' where k': "r < k'" "k' < hi" "P k'" by blast
    then have "nat (hi - k') < nat (hi - r)" by simp
    from less.hyps [OF this k'(2,3)] obtain k where
      "k' \<le> k \<and> k < hi \<and> P k \<and> (\<forall>k'. k < k' \<and> k' < hi \<longrightarrow> \<not> P k')" by blast
    then show ?thesis using k'(1) by (intro exI [of _ k]) simp
  next
    case False
    then show ?thesis using less.prems by (intro exI [of _ r]) auto
  qed
qed

lemma length_make_delta1: "length (make_delta1 d pat m) = length d"
  by (simp add: make_delta1_def length_delta1_fill length_delta1_init)

lemma make_delta1_absent:
  assumes "int (length d) = ALPHABET_LEN"
    and "\<forall>k. 0 \<le> k \<and> k < m - 1 \<longrightarrow> pat ! nat k \<noteq> v"
  shows "make_delta1 d pat m ! unat v = m"
proof -
  have v: "unat v < length d"
    using assms(1) unat_byte_less [of v] by (simp add: ALPHABET_LEN_def)
  have "make_delta1 d pat m ! unat v = delta1_init m 0 d ! unat v"
    unfolding make_delta1_def using assms(2) by (intro delta1_fill_absent) auto
  also have "\<dots> = m" using delta1_init_nth [of 0 "unat v" d m] v assms(1) by simp
  finally show ?thesis .
qed

lemma make_delta1_rightmost:
  assumes "int (length d) = ALPHABET_LEN"
    and "0 \<le> r" "r < m - 1" "pat ! nat r = v"
    and "\<forall>k. r < k \<and> k < m - 1 \<longrightarrow> pat ! nat k \<noteq> v"
  shows "make_delta1 d pat m ! unat v = m - 1 - r"
proof -
  have v: "unat v < length (delta1_init m 0 d)"
    using assms(1) unat_byte_less [of v] by (simp add: ALPHABET_LEN_def length_delta1_init)
  show ?thesis
    unfolding make_delta1_def using assms v by (intro delta1_fill_rightmost) auto
qed

lemma make_delta1_cases:
  assumes "int (length d) = ALPHABET_LEN"
  shows "make_delta1 d pat m ! unat v = m \<and> (\<forall>k. 0 \<le> k \<and> k < m - 1 \<longrightarrow> pat ! nat k \<noteq> v)
       \<or> (\<exists>r. 0 \<le> r \<and> r < m - 1 \<and> pat ! nat r = v
              \<and> (\<forall>k. r < k \<and> k < m - 1 \<longrightarrow> pat ! nat k \<noteq> v)
              \<and> make_delta1 d pat m ! unat v = m - 1 - r)"
proof (cases "\<exists>k. 0 \<le> k \<and> k < m - 1 \<and> pat ! nat k = v")
  case True
  then obtain k where k: "0 \<le> k" "k < m - 1" "pat ! nat k = v" by blast
  from rightmost_ex [of k "m - 1" "\<lambda>k. pat ! nat k = v", OF k(2,3)]
  obtain r where r: "k \<le> r" "r < m - 1" "pat ! nat r = v"
      "\<forall>k'. r < k' \<and> k' < m - 1 \<longrightarrow> pat ! nat k' \<noteq> v" by blast
  have "make_delta1 d pat m ! unat v = m - 1 - r"
    using assms r k(1) by (intro make_delta1_rightmost) auto
  then show ?thesis using r k(1) by (intro disjI2 exI [of _ r]) simp
next
  case False
  then have a: "\<forall>k. 0 \<le> k \<and> k < m - 1 \<longrightarrow> pat ! nat k \<noteq> v" by blast
  then show ?thesis using make_delta1_absent [OF assms a] by simp
qed

lemma make_delta1_bounds:
  assumes "int (length d) = ALPHABET_LEN" "1 \<le> m"
  shows "1 \<le> make_delta1 d pat m ! unat (v :: byte) \<and> make_delta1 d pat m ! unat v \<le> m"
  using make_delta1_cases [OF assms(1), of pat m v] assms(2) by auto

text \<open>an occurrence of v at r before the last position bounds the entry\<close>
lemma make_delta1_occurrence:
  assumes "int (length d) = ALPHABET_LEN" "0 \<le> r" "r < m - 1" "pat ! nat r = v"
  shows "make_delta1 d pat m ! unat v \<le> m - 1 - r"
  using make_delta1_cases [OF assms(1), of pat m v] assms(2-4)
  by (metis diff_left_mono leI order_less_imp_le)

section \<open>The good-suffix table\<close>

lemma is_prefix_loop_iff:
  "is_prefix_loop word pos suffixlen i \<longleftrightarrow>
   (\<forall>k. i \<le> k \<and> k < suffixlen \<longrightarrow> word ! nat k = word ! nat (pos + k))"
proof (induction word pos suffixlen i rule: is_prefix_loop.induct)
  case (1 word pos suffixlen i)
  show ?case
  proof (cases "i < suffixlen")
    case True
    show ?thesis
    proof (cases "word ! nat i = word ! nat (pos + i)")
      case eq: True
      have "is_prefix_loop word pos suffixlen i = is_prefix_loop word pos suffixlen (i + 1)"
        using True eq by (subst is_prefix_loop.simps) simp
      also have "\<dots> \<longleftrightarrow> (\<forall>k. i + 1 \<le> k \<and> k < suffixlen \<longrightarrow> word ! nat k = word ! nat (pos + k))"
        using "1.IH" True eq by simp
      also have "\<dots> \<longleftrightarrow> (\<forall>k. i \<le> k \<and> k < suffixlen \<longrightarrow> word ! nat k = word ! nat (pos + k))"
      proof (intro iffI allI impI)
        fix k assume h: "\<forall>k. i + 1 \<le> k \<and> k < suffixlen \<longrightarrow> word ! nat k = word ! nat (pos + k)"
          and k: "i \<le> k \<and> k < suffixlen"
        show "word ! nat k = word ! nat (pos + k)"
        proof (cases "k = i")
          case True then show ?thesis using eq by simp
        next
          case False then show ?thesis using h k by simp
        qed
      qed simp
      finally show ?thesis .
    next
      case ne: False
      have "\<not> is_prefix_loop word pos suffixlen i"
        using True ne by (subst is_prefix_loop.simps) simp
      then show ?thesis using True ne by auto
    qed
  next
    case False
    then show ?thesis by (subst is_prefix_loop.simps) simp
  qed
qed

lemma is_prefix_iff:
  "is_prefix word wordlen pos \<longleftrightarrow>
   (\<forall>k. 0 \<le> k \<and> k < wordlen - pos \<longrightarrow> word ! nat k = word ! nat (pos + k))"
  by (simp add: is_prefix_def is_prefix_loop_iff)

lemma suffix_length_loop_spec:
  "0 \<le> i \<Longrightarrow> i \<le> pos \<Longrightarrow>
   i \<le> suffix_length_loop word wordlen pos i \<and> suffix_length_loop word wordlen pos i \<le> pos
       \<and> (\<forall>k. i \<le> k \<and> k < suffix_length_loop word wordlen pos i
              \<longrightarrow> word ! nat (pos - k) = word ! nat (wordlen - 1 - k))
       \<and> (suffix_length_loop word wordlen pos i < pos
              \<longrightarrow> word ! nat (pos - suffix_length_loop word wordlen pos i)
                  \<noteq> word ! nat (wordlen - 1 - suffix_length_loop word wordlen pos i))"
proof (induction word wordlen pos i rule: suffix_length_loop.induct)
  case (1 word wordlen pos i)
  let ?c = "word ! nat (pos - i) = word ! nat (wordlen - 1 - i) \<and> i < pos"
  show ?case
  proof (cases ?c)
    case True
    have eq: "suffix_length_loop word wordlen pos i = suffix_length_loop word wordlen pos (i + 1)"
      using True by (subst suffix_length_loop.simps) simp
    have ih: "i + 1 \<le> suffix_length_loop word wordlen pos (i + 1)
       \<and> suffix_length_loop word wordlen pos (i + 1) \<le> pos
       \<and> (\<forall>k. i + 1 \<le> k \<and> k < suffix_length_loop word wordlen pos (i + 1)
              \<longrightarrow> word ! nat (pos - k) = word ! nat (wordlen - 1 - k))
       \<and> (suffix_length_loop word wordlen pos (i + 1) < pos
              \<longrightarrow> word ! nat (pos - suffix_length_loop word wordlen pos (i + 1))
                  \<noteq> word ! nat (wordlen - 1 - suffix_length_loop word wordlen pos (i + 1)))"
      using "1.IH" [OF True] "1.prems" True by simp
    have "\<forall>k. i \<le> k \<and> k < suffix_length_loop word wordlen pos (i + 1)
              \<longrightarrow> word ! nat (pos - k) = word ! nat (wordlen - 1 - k)"
    proof (intro allI impI)
      fix k assume k: "i \<le> k \<and> k < suffix_length_loop word wordlen pos (i + 1)"
      show "word ! nat (pos - k) = word ! nat (wordlen - 1 - k)"
      proof (cases "k = i")
        case True then show ?thesis using \<open>?c\<close> by simp
      next
        case False then show ?thesis using ih k by simp
      qed
    qed
    then show ?thesis using ih eq by simp
  next
    case False
    have eq: "suffix_length_loop word wordlen pos i = i"
      using False by (subst suffix_length_loop.simps) auto
    show ?thesis using False "1.prems" unfolding eq by auto
  qed
qed

lemma suffix_length_spec:
  assumes "0 \<le> pos"
  shows "0 \<le> suffix_length word wordlen pos \<and> suffix_length word wordlen pos \<le> pos
       \<and> (\<forall>k. 0 \<le> k \<and> k < suffix_length word wordlen pos
              \<longrightarrow> word ! nat (pos - k) = word ! nat (wordlen - 1 - k))
       \<and> (suffix_length word wordlen pos < pos
              \<longrightarrow> word ! nat (pos - suffix_length word wordlen pos)
                  \<noteq> word ! nat (wordlen - 1 - suffix_length word wordlen pos))"
  using suffix_length_loop_spec [of 0 pos word wordlen] assms by (simp add: suffix_length_def)

text \<open>
  The indices of the second loop of \<^verbatim>\<open>make_delta2\<close>, and those \<^verbatim>\<open>suffix_length\<close>
  itself reads with (\<open>k\<close> runs up to the result), are inside the pattern.
\<close>

lemma suffix_length_indices:
  assumes "0 \<le> pos" "pos < wordlen" "0 \<le> k" "k \<le> suffix_length word wordlen pos"
  shows "0 \<le> pos - k \<and> pos - k < wordlen \<and> 0 \<le> wordlen - 1 - k \<and> wordlen - 1 - k < wordlen"
  using suffix_length_spec [OF assms(1), of word wordlen] assms by auto

text \<open>uniqueness: a run of x matching bytes followed by a difference fixes the result\<close>
lemma suffix_length_unique:
  assumes "0 \<le> x" "x \<le> pos"
    and "\<forall>k. 0 \<le> k \<and> k < x \<longrightarrow> word ! nat (pos - k) = word ! nat (wordlen - 1 - k)"
    and "word ! nat (pos - x) \<noteq> word ! nat (wordlen - 1 - x)"
  shows "suffix_length word wordlen pos = x"
proof -
  let ?r = "suffix_length word wordlen pos"
  have pos: "0 \<le> pos" using assms by simp
  note sp = suffix_length_spec [OF pos, of word wordlen]
  have "\<not> ?r < x"
  proof
    assume "?r < x"
    then have "?r < pos" using assms by simp
    then have "word ! nat (pos - ?r) \<noteq> word ! nat (wordlen - 1 - ?r)" using sp by simp
    moreover have "word ! nat (pos - ?r) = word ! nat (wordlen - 1 - ?r)"
      using assms(3) sp \<open>?r < x\<close> by simp
    ultimately show False by simp
  qed
  moreover have "\<not> x < ?r"
  proof
    assume "x < ?r"
    then have "word ! nat (pos - x) = word ! nat (wordlen - 1 - x)" using sp assms(1) by simp
    then show False using assms(4) by simp
  qed
  ultimately show ?thesis by simp
qed

lemma length_delta2_loop1: "length (delta2_loop1 pat m p lpi d) = length d"
  by (induction pat m p lpi d rule: delta2_loop1.induct)
     (subst delta2_loop1.simps, simp add: Let_def)

lemma delta2_loop1_above:
  "p < k \<Longrightarrow> 0 \<le> k \<Longrightarrow> delta2_loop1 pat m p lpi d ! nat k = d ! nat k"
proof (induction pat m p lpi d rule: delta2_loop1.induct)
  case (1 pat m p lpi d)
  show ?case
  proof (cases "0 \<le> p")
    case True
    define lpi' where "lpi' = (if is_prefix pat m (p + 1) then p + 1 else lpi)"
    have "delta2_loop1 pat m p lpi d ! nat k
        = delta2_loop1 pat m (p - 1) lpi' (d[nat p := lpi' + (m - 1 - p)]) ! nat k"
      using True by (subst delta2_loop1.simps) (simp add: Let_def lpi'_def)
    also have "\<dots> = d[nat p := lpi' + (m - 1 - p)] ! nat k"
      using "1.IH" [OF True lpi'_def] "1.prems" by simp
    also have "\<dots> = d ! nat k"
      using True "1.prems" by simp
    finally show ?thesis .
  next
    case False
    then show ?thesis by (subst delta2_loop1.simps) simp
  qed
qed

lemma delta2_loop1_spec:
  "0 \<le> k \<Longrightarrow> k \<le> p \<Longrightarrow> p < int (length d) \<Longrightarrow>
   \<exists>L. delta2_loop1 pat m p lpi d ! nat k = L + (m - 1 - k)
     \<and> ((L = lpi \<and> (\<forall>t. k < t \<and> t \<le> p + 1 \<longrightarrow> \<not> is_prefix pat m t))
        \<or> (k < L \<and> L \<le> p + 1 \<and> is_prefix pat m L
            \<and> (\<forall>t. k < t \<and> t < L \<longrightarrow> \<not> is_prefix pat m t)))"
proof (induction pat m p lpi d rule: delta2_loop1.induct)
  case (1 pat m p lpi d)
  have p0: "0 \<le> p" using "1.prems" by simp
  define lpi' where "lpi' = (if is_prefix pat m (p + 1) then p + 1 else lpi)"
  define d' where "d' = d[nat p := lpi' + (m - 1 - p)]"
  have unf: "delta2_loop1 pat m p lpi d = delta2_loop1 pat m (p - 1) lpi' d'"
    using p0 by (subst delta2_loop1.simps) (simp add: Let_def lpi'_def d'_def)
  show ?case
  proof (cases "k = p")
    case True
    have "delta2_loop1 pat m (p - 1) lpi' d' ! nat k = d' ! nat k"
      using True p0 by (intro delta2_loop1_above) auto
    also have "\<dots> = lpi' + (m - 1 - k)"
      using True "1.prems" by (simp add: d'_def)
    finally have v: "delta2_loop1 pat m p lpi d ! nat k = lpi' + (m - 1 - k)"
      using unf by simp
    show ?thesis
    proof (cases "is_prefix pat m (p + 1)")
      case ip: True
      then have "lpi' = p + 1" by (simp add: lpi'_def)
      then show ?thesis using v True ip by (intro exI [of _ "p + 1"]) auto
    next
      case ip: False
      then have "lpi' = lpi" by (simp add: lpi'_def)
      moreover have "\<forall>t. k < t \<and> t \<le> p + 1 \<longrightarrow> \<not> is_prefix pat m t"
      proof (intro allI impI)
        fix t assume "k < t \<and> t \<le> p + 1"
        then have "t = p + 1" using True by simp
        then show "\<not> is_prefix pat m t" using ip by simp
      qed
      ultimately show ?thesis using v by (intro exI [of _ lpi]) simp
    qed
  next
    case False
    then have kp: "k \<le> p - 1" using "1.prems" by simp
    have len: "p - 1 < int (length d')" using "1.prems" by (simp add: d'_def)
    from "1.IH" [OF p0 lpi'_def "1.prems"(1) kp, of ] len
    obtain L where L: "delta2_loop1 pat m (p - 1) lpi' d' ! nat k = L + (m - 1 - k)"
      and alt: "(L = lpi' \<and> (\<forall>t. k < t \<and> t \<le> p - 1 + 1 \<longrightarrow> \<not> is_prefix pat m t))
        \<or> (k < L \<and> L \<le> p - 1 + 1 \<and> is_prefix pat m L
            \<and> (\<forall>t. k < t \<and> t < L \<longrightarrow> \<not> is_prefix pat m t))"
      unfolding d'_def by blast
    have v: "delta2_loop1 pat m p lpi d ! nat k = L + (m - 1 - k)" using unf L by simp
    from alt show ?thesis
    proof
      assume a: "L = lpi' \<and> (\<forall>t. k < t \<and> t \<le> p - 1 + 1 \<longrightarrow> \<not> is_prefix pat m t)"
      show ?thesis
      proof (cases "is_prefix pat m (p + 1)")
        case ip: True
        then have "L = p + 1" using a by (simp add: lpi'_def)
        moreover have "\<forall>t. k < t \<and> t < p + 1 \<longrightarrow> \<not> is_prefix pat m t" using a by simp
        ultimately show ?thesis using v ip kp by (intro exI [of _ L]) auto
      next
        case ip: False
        then have "L = lpi" using a by (simp add: lpi'_def)
        moreover have "\<forall>t. k < t \<and> t \<le> p + 1 \<longrightarrow> \<not> is_prefix pat m t"
        proof (intro allI impI)
          fix t assume t: "k < t \<and> t \<le> p + 1"
          show "\<not> is_prefix pat m t"
          proof (cases "t = p + 1")
            case True then show ?thesis using ip by simp
          next
            case False then show ?thesis using a t by simp
          qed
        qed
        ultimately show ?thesis using v by (intro exI [of _ L]) simp
      qed
    next
      assume "k < L \<and> L \<le> p - 1 + 1 \<and> is_prefix pat m L
            \<and> (\<forall>t. k < t \<and> t < L \<longrightarrow> \<not> is_prefix pat m t)"
      then show ?thesis using v by (intro exI [of _ L]) simp
    qed
  qed
qed

lemma length_delta2_loop2: "length (delta2_loop2 pat m p d) = length d"
  by (induction pat m p d rule: delta2_loop2.induct)
     (subst delta2_loop2.simps, simp add: Let_def)

lemma delta2_loop2_entry:
  "0 \<le> p \<Longrightarrow> k < length d \<Longrightarrow>
   delta2_loop2 pat m p d ! k = d ! k
   \<or> (\<exists>q. p \<le> q \<and> q < m - 1
          \<and> pat ! nat (q - suffix_length pat m q) \<noteq> pat ! nat (m - 1 - suffix_length pat m q)
          \<and> int k = m - 1 - suffix_length pat m q
          \<and> delta2_loop2 pat m p d ! k = m - 1 - q + suffix_length pat m q)"
proof (induction pat m p d rule: delta2_loop2.induct)
  case (1 pat m p d)
  show ?case
  proof (cases "p < m - 1")
    case True
    define sl where "sl = suffix_length pat m p"
    define d' where "d' = (if pat ! nat (p - sl) \<noteq> pat ! nat (m - 1 - sl)
                          then d[nat (m - 1 - sl) := m - 1 - p + sl] else d)"
    have unf: "delta2_loop2 pat m p d = delta2_loop2 pat m (p + 1) d'"
      using True by (subst delta2_loop2.simps) (simp add: Let_def sl_def d'_def)
    have len: "k < length d'" using "1.prems" by (simp add: d'_def)
    have ih: "delta2_loop2 pat m (p + 1) d' ! k = d' ! k
      \<or> (\<exists>q. p + 1 \<le> q \<and> q < m - 1
          \<and> pat ! nat (q - suffix_length pat m q) \<noteq> pat ! nat (m - 1 - suffix_length pat m q)
          \<and> int k = m - 1 - suffix_length pat m q
          \<and> delta2_loop2 pat m (p + 1) d' ! k = m - 1 - q + suffix_length pat m q)"
      using "1.IH" [OF True sl_def] "1.prems"(1) len unfolding d'_def by simp
    from ih show ?thesis
    proof
      assume a: "delta2_loop2 pat m (p + 1) d' ! k = d' ! k"
      show ?thesis
      proof (cases "pat ! nat (p - sl) \<noteq> pat ! nat (m - 1 - sl) \<and> k = nat (m - 1 - sl)")
        case w: True
        have sl0: "0 \<le> sl" "sl \<le> p"
          using suffix_length_spec [OF "1.prems"(1), of pat m] by (simp_all add: sl_def)
        have "d' ! k = m - 1 - p + sl" using w "1.prems" by (simp add: d'_def)
        moreover have "int k = m - 1 - sl" using w sl0 True by simp
        ultimately show ?thesis using a unf w True
          by (intro disjI2 exI [of _ p]) (simp add: sl_def)
      next
        case False
        then have "d' ! k = d ! k" by (auto simp: d'_def)
        then show ?thesis using a unf by simp
      qed
    next
      assume "\<exists>q. p + 1 \<le> q \<and> q < m - 1
          \<and> pat ! nat (q - suffix_length pat m q) \<noteq> pat ! nat (m - 1 - suffix_length pat m q)
          \<and> int k = m - 1 - suffix_length pat m q
          \<and> delta2_loop2 pat m (p + 1) d' ! k = m - 1 - q + suffix_length pat m q"
      then obtain q where "p + 1 \<le> q" "q < m - 1"
          "pat ! nat (q - suffix_length pat m q) \<noteq> pat ! nat (m - 1 - suffix_length pat m q)"
          "int k = m - 1 - suffix_length pat m q"
          "delta2_loop2 pat m (p + 1) d' ! k = m - 1 - q + suffix_length pat m q"
        by blast
      then show ?thesis using unf by (intro disjI2 exI [of _ q]) simp
    qed
  next
    case False
    then show ?thesis by (subst delta2_loop2.simps) simp
  qed
qed

lemma delta2_loop2_written:
  "0 \<le> p \<Longrightarrow> p \<le> q \<Longrightarrow> q < m - 1 \<Longrightarrow> m = int (length d) \<Longrightarrow>
   pat ! nat (q - suffix_length pat m q) \<noteq> pat ! nat (m - 1 - suffix_length pat m q) \<Longrightarrow>
   delta2_loop2 pat m p d ! nat (m - 1 - suffix_length pat m q)
     \<le> m - 1 - q + suffix_length pat m q"
proof (induction pat m p d rule: delta2_loop2.induct)
  case (1 pat m p d)
  have lt: "p < m - 1" using "1.prems" by simp
  define sl where "sl = suffix_length pat m p"
  define d' where "d' = (if pat ! nat (p - sl) \<noteq> pat ! nat (m - 1 - sl)
                        then d[nat (m - 1 - sl) := m - 1 - p + sl] else d)"
  have unf: "delta2_loop2 pat m p d = delta2_loop2 pat m (p + 1) d'"
    using lt by (subst delta2_loop2.simps) (simp add: Let_def sl_def d'_def)
  have len: "m = int (length d')" using "1.prems" by (simp add: d'_def)
  show ?case
  proof (cases "q = p")
    case True
    have sl0: "0 \<le> sl" "sl \<le> p"
      using suffix_length_spec [OF "1.prems"(1), of pat m] by (simp_all add: sl_def)
    define k where "k = nat (m - 1 - sl)"
    have k: "k < length d'" "int k = m - 1 - sl" using sl0 lt len by (simp_all add: k_def)
    have w: "pat ! nat (p - sl) \<noteq> pat ! nat (m - 1 - sl)" using "1.prems" True by (simp add: sl_def)
    have d'k: "d' ! k = m - 1 - p + sl" using w k "1.prems" by (simp add: d'_def k_def)
    have p1: "0 \<le> p + 1" using "1.prems" by simp
    from delta2_loop2_entry [OF p1 k(1), of pat m]
    have "delta2_loop2 pat m (p + 1) d' ! k \<le> m - 1 - p + sl"
    proof
      assume "delta2_loop2 pat m (p + 1) d' ! k = d' ! k"
      then show ?thesis using d'k by simp
    next
      assume "\<exists>q. p + 1 \<le> q \<and> q < m - 1
          \<and> pat ! nat (q - suffix_length pat m q) \<noteq> pat ! nat (m - 1 - suffix_length pat m q)
          \<and> int k = m - 1 - suffix_length pat m q
          \<and> delta2_loop2 pat m (p + 1) d' ! k = m - 1 - q + suffix_length pat m q"
      then obtain q' where "p + 1 \<le> q'" "int k = m - 1 - suffix_length pat m q'"
          "delta2_loop2 pat m (p + 1) d' ! k = m - 1 - q' + suffix_length pat m q'"
        by blast
      then show ?thesis using k by simp
    qed
    then show ?thesis using unf True by (simp add: sl_def k_def)
  next
    case False
    then have "p + 1 \<le> q" using "1.prems" by simp
    then show ?thesis
      using "1.IH" [OF lt sl_def] "1.prems" len unf unfolding d'_def by simp
  qed
qed

lemma length_make_delta2: "length (make_delta2 d pat m) = length d"
  by (simp add: make_delta2_def length_delta2_loop2 length_delta2_loop1)

lemma is_prefix_whole: "is_prefix pat m m"
  by (simp add: is_prefix_iff)

text \<open>what the first loop leaves at position j\<close>
lemma delta2_loop1_top:
  assumes "0 \<le> j" "j < m" "m = int (length d)"
  shows "\<exists>L. delta2_loop1 pat m (m - 1) (m - 1) d ! nat j = L + (m - 1 - j)
           \<and> j < L \<and> L \<le> m \<and> is_prefix pat m L
           \<and> (\<forall>t. j < t \<and> t < L \<longrightarrow> \<not> is_prefix pat m t)"
proof -
  have "j \<le> m - 1" "m - 1 < int (length d)" using assms by simp_all
  from delta2_loop1_spec [OF assms(1) this, of pat m "m - 1"]
  obtain L where v: "delta2_loop1 pat m (m - 1) (m - 1) d ! nat j = L + (m - 1 - j)"
    and alt: "(L = m - 1 \<and> (\<forall>t. j < t \<and> t \<le> m - 1 + 1 \<longrightarrow> \<not> is_prefix pat m t))
        \<or> (j < L \<and> L \<le> m - 1 + 1 \<and> is_prefix pat m L
            \<and> (\<forall>t. j < t \<and> t < L \<longrightarrow> \<not> is_prefix pat m t))"
    by blast
  have "\<not> (\<forall>t. j < t \<and> t \<le> m - 1 + 1 \<longrightarrow> \<not> is_prefix pat m t)"
    using is_prefix_whole [of pat m] assms(2) by auto
  with alt have "j < L \<and> L \<le> m \<and> is_prefix pat m L
            \<and> (\<forall>t. j < t \<and> t < L \<longrightarrow> \<not> is_prefix pat m t)" by auto
  with v show ?thesis by blast
qed

text \<open>every entry of the finished table comes from the first or from the second loop\<close>
lemma make_delta2_entry:
  assumes "0 \<le> j" "j < m" "m = int (length d)"
  shows "(\<exists>L. make_delta2 d pat m ! nat j = L + (m - 1 - j)
           \<and> j < L \<and> L \<le> m \<and> is_prefix pat m L
           \<and> (\<forall>t. j < t \<and> t < L \<longrightarrow> \<not> is_prefix pat m t))
       \<or> (\<exists>q. 0 \<le> q \<and> q < m - 1 \<and> m - 1 - j \<le> q
           \<and> suffix_length pat m q = m - 1 - j
           \<and> make_delta2 d pat m ! nat j = m - 1 - q + (m - 1 - j))"
proof -
  define init where "init = delta2_loop1 pat m (m - 1) (m - 1) d"
  have len: "nat j < length init" using assms by (simp add: init_def length_delta2_loop1)
  have md: "make_delta2 d pat m = delta2_loop2 pat m 0 init"
    by (simp add: make_delta2_def init_def)
  from delta2_loop2_entry [of 0 "nat j" init pat m] len
  have "delta2_loop2 pat m 0 init ! nat j = init ! nat j
   \<or> (\<exists>q. 0 \<le> q \<and> q < m - 1
          \<and> pat ! nat (q - suffix_length pat m q) \<noteq> pat ! nat (m - 1 - suffix_length pat m q)
          \<and> int (nat j) = m - 1 - suffix_length pat m q
          \<and> delta2_loop2 pat m 0 init ! nat j = m - 1 - q + suffix_length pat m q)"
    by simp
  then show ?thesis
  proof
    assume "delta2_loop2 pat m 0 init ! nat j = init ! nat j"
    then show ?thesis
      using delta2_loop1_top [OF assms, of pat] md unfolding init_def by simp
  next
    assume "\<exists>q. 0 \<le> q \<and> q < m - 1
          \<and> pat ! nat (q - suffix_length pat m q) \<noteq> pat ! nat (m - 1 - suffix_length pat m q)
          \<and> int (nat j) = m - 1 - suffix_length pat m q
          \<and> delta2_loop2 pat m 0 init ! nat j = m - 1 - q + suffix_length pat m q"
    then obtain q where q: "0 \<le> q" "q < m - 1"
        "int (nat j) = m - 1 - suffix_length pat m q"
        "delta2_loop2 pat m 0 init ! nat j = m - 1 - q + suffix_length pat m q"
      by blast
    have sl: "suffix_length pat m q = m - 1 - j" using q(3) assms(1) by simp
    have "suffix_length pat m q \<le> q" using suffix_length_spec [OF q(1), of pat m] by simp
    then have "m - 1 - j \<le> q" using sl by simp
    then show ?thesis using q sl md by (intro disjI2 exI [of _ q]) simp
  qed
qed

lemma make_delta2_bounds:
  assumes "0 \<le> j" "j < m" "m = int (length d)"
  shows "m - j \<le> make_delta2 d pat m ! nat j \<and> make_delta2 d pat m ! nat j \<le> 2 * m - 1"
  using make_delta2_entry [OF assms, of pat] assms by auto

text \<open>case 1: the pattern moved by t > j puts a prefix under the matched suffix\<close>
lemma make_delta2_prefix_shift:
  assumes "0 \<le> j" "j < m" "m = int (length d)" "j < t" "t < m \<longrightarrow> is_prefix pat m t"
  shows "make_delta2 d pat m ! nat j \<le> t + (m - 1 - j)"
  using make_delta2_entry [OF assms(1-3), of pat]
proof
  assume "\<exists>L. make_delta2 d pat m ! nat j = L + (m - 1 - j)
           \<and> j < L \<and> L \<le> m \<and> is_prefix pat m L
           \<and> (\<forall>t. j < t \<and> t < L \<longrightarrow> \<not> is_prefix pat m t)"
  then obtain L where L: "make_delta2 d pat m ! nat j = L + (m - 1 - j)" "L \<le> m"
      "\<forall>t. j < t \<and> t < L \<longrightarrow> \<not> is_prefix pat m t" by blast
  have "L \<le> t"
  proof (cases "t < m")
    case True
    then show ?thesis using L(3) assms(4,5) by (meson leI)
  next
    case False
    then show ?thesis using L(2) by simp
  qed
  then show ?thesis using L(1) by simp
next
  assume "\<exists>q. 0 \<le> q \<and> q < m - 1 \<and> m - 1 - j \<le> q
           \<and> suffix_length pat m q = m - 1 - j
           \<and> make_delta2 d pat m ! nat j = m - 1 - q + (m - 1 - j)"
  then show ?thesis using assms(4) by auto
qed

text \<open>case 2: the pattern moved by t \<le> j puts another copy of the matched suffix, after
  a different byte, under it\<close>
lemma make_delta2_suffix_shift:
  assumes "0 \<le> j" "j < m" "m = int (length d)" "1 \<le> t" "t \<le> j"
    and "\<forall>k. j < k \<and> k < m \<longrightarrow> pat ! nat (k - t) = pat ! nat k"
    and "pat ! nat (j - t) \<noteq> pat ! nat j"
  shows "make_delta2 d pat m ! nat j \<le> t + (m - 1 - j)"
proof -
  define q where "q = m - 1 - t"
  define x where "x = m - 1 - j"
  have q: "0 \<le> q" "q < m - 1" using assms by (simp_all add: q_def)
  have x: "0 \<le> x" "x \<le> q" using assms by (simp_all add: q_def x_def)
  have run: "\<forall>k. 0 \<le> k \<and> k < x \<longrightarrow> pat ! nat (q - k) = pat ! nat (m - 1 - k)"
  proof (intro allI impI)
    fix k assume k: "0 \<le> k \<and> k < x"
    have "pat ! nat (m - 1 - k - t) = pat ! nat (m - 1 - k)"
      using assms(6) k by (simp add: x_def)
    moreover have "m - 1 - k - t = q - k" by (simp add: q_def)
    ultimately show "pat ! nat (q - k) = pat ! nat (m - 1 - k)" by simp
  qed
  have "q - x = j - t" "m - 1 - x = j" by (simp_all add: q_def x_def)
  then have diff: "pat ! nat (q - x) \<noteq> pat ! nat (m - 1 - x)" using assms(7) by simp
  have sl: "suffix_length pat m q = x" using x run diff by (rule suffix_length_unique)
  define init where "init = delta2_loop1 pat m (m - 1) (m - 1) d"
  have len: "m = int (length init)" using assms by (simp add: init_def length_delta2_loop1)
  have "delta2_loop2 pat m 0 init ! nat (m - 1 - suffix_length pat m q)
     \<le> m - 1 - q + suffix_length pat m q"
    using q len diff sl by (intro delta2_loop2_written) simp_all
  then have "delta2_loop2 pat m 0 init ! nat (m - 1 - x) \<le> m - 1 - q + x"
    unfolding sl .
  moreover have "m - 1 - x = j" "m - 1 - q + x = t + (m - 1 - j)"
    by (simp_all add: q_def x_def)
  ultimately show ?thesis
    by (simp add: make_delta2_def init_def)
qed

section \<open>Properties of the tables\<close>

text \<open>
  The pattern length is an \<^verbatim>\<open>int32_t\<close> argument of both builders, and the largest
  value \<^verbatim>\<open>make_delta2\<close> computes is twice the pattern length minus one: the
  properties are stated for the patterns whose length the C code can take without
  overflow, below \<open>2 ^ 31\<close> bytes for \<^verbatim>\<open>make_delta1\<close> and up to \<open>2 ^ 30\<close> for
  \<^verbatim>\<open>make_delta2\<close>.
\<close>

text \<open>
  Claim C4 (bad-character table formula). For a non-empty pattern and the 256-entry
  array filled by \<open>make_delta1\<close>, the entry of a byte \<open>v\<close> is the pattern length when
  \<open>v\<close> does not occur among the bytes before the last one, and otherwise the pattern
  length minus one minus the position \<open>r\<close> of the rightmost such occurrence.
\<close>

theorem make_delta1_formula:
  assumes "pat \<noteq> []" "length pat < 2 ^ 31" "length delta1 = 256"
  shows "(v \<notin> set (butlast pat) \<longrightarrow>
            make_delta1 delta1 pat (int (length pat)) ! unat v = int (length pat))
       \<and> (\<forall>r. r < length pat - 1 \<and> pat ! r = v
               \<and> (\<forall>k. r < k \<and> k < length pat - 1 \<longrightarrow> pat ! k \<noteq> v) \<longrightarrow>
            make_delta1 delta1 pat (int (length pat)) ! unat v
              = int (length pat) - 1 - int r)"
proof (intro conjI impI allI)
  have len: "int (length delta1) = ALPHABET_LEN" using assms by (simp add: ALPHABET_LEN_def)
  {
    assume nin: "v \<notin> set (butlast pat)"
    have "\<forall>k. 0 \<le> k \<and> k < int (length pat) - 1 \<longrightarrow> pat ! nat k \<noteq> v"
    proof (intro allI impI)
      fix k :: int assume k: "0 \<le> k \<and> k < int (length pat) - 1"
      then have "nat k < length (butlast pat)" by auto
      then have "butlast pat ! nat k \<in> set (butlast pat)" by (rule nth_mem)
      moreover have "butlast pat ! nat k = pat ! nat k"
        using \<open>nat k < length (butlast pat)\<close> by (rule nth_butlast)
      ultimately show "pat ! nat k \<noteq> v" using nin by auto
    qed
    with len show "make_delta1 delta1 pat (int (length pat)) ! unat v = int (length pat)"
      by (rule make_delta1_absent)
  }
  {
    fix r
    assume r: "r < length pat - 1 \<and> pat ! r = v
               \<and> (\<forall>k. r < k \<and> k < length pat - 1 \<longrightarrow> pat ! k \<noteq> v)"
    have "\<forall>k. int r < k \<and> k < int (length pat) - 1 \<longrightarrow> pat ! nat k \<noteq> v"
    proof (intro allI impI)
      fix k :: int assume "int r < k \<and> k < int (length pat) - 1"
      then have "r < nat k \<and> nat k < length pat - 1" by auto
      then show "pat ! nat k \<noteq> v" using r by blast
    qed
    then have "make_delta1 delta1 pat (int (length pat)) ! unat v = int (length pat) - 1 - int r"
      using len r by (intro make_delta1_rightmost) auto
    then show "make_delta1 delta1 pat (int (length pat)) ! unat v = int (length pat) - 1 - int r" .
  }
qed

theorem make_delta1_formula_witness:
  "[65, 66, 65, 67 :: byte] \<noteq> [] \<and> length [65, 66, 65, 67 :: byte] < 2 ^ 31
   \<and> length (replicate 256 (0 :: int)) = 256
   \<and> (90 :: byte) \<notin> set (butlast [65, 66, 65, 67])
   \<and> make_delta1 (replicate 256 0) [65, 66, 65, 67] 4 ! unat (90 :: byte) = 4
   \<and> make_delta1 (replicate 256 0) [65, 66, 65, 67] 4 ! unat (65 :: byte) = 1"
proof -
  have h1: "[65, 66, 65, 67 :: byte] \<noteq> []" by simp
  have h0: "length [65, 66, 65, 67 :: byte] < 2 ^ 31" by simp
  have h2: "length (replicate 256 (0 :: int)) = 256" by simp
  have h3: "(90 :: byte) \<notin> set (butlast [65, 66, 65, 67])" by simp
  have "make_delta1 (replicate 256 0) [65, 66, 65, 67] 4 ! unat (90 :: byte) = 4"
    using make_delta1_formula [OF h1 h0 h2, of 90] h3 by simp
  moreover have "make_delta1 (replicate 256 0) [65, 66, 65, 67] 4 ! unat (65 :: byte) = 1"
  proof -
    have "(2::nat) < length [65, 66, 65, 67 :: byte] - 1 \<and> [65, 66, 65, 67 :: byte] ! 2 = 65
        \<and> (\<forall>k. 2 < k \<and> k < length [65, 66, 65, 67 :: byte] - 1 \<longrightarrow> [65, 66, 65, 67 :: byte] ! k \<noteq> 65)"
      by simp
    then show ?thesis using make_delta1_formula [OF h1 h0 h2, of 65] by fastforce
  qed
  ultimately show ?thesis using h1 h0 h2 h3 by blast
qed

text \<open>
  Claim C5 (table ranges). For a non-empty pattern, \<open>make_delta1\<close> leaves 256 entries,
  each between 1 and the pattern length, and \<open>make_delta2\<close> leaves one entry per pattern
  position, each between 1 and twice the pattern length minus one.
\<close>

theorem table_ranges:
  assumes "pat \<noteq> []" "length pat \<le> 2 ^ 30"
    and "length delta1 = 256" "length delta2 = length pat"
  shows "length (make_delta1 delta1 pat (int (length pat))) = 256
       \<and> (\<forall>c < 256. 1 \<le> make_delta1 delta1 pat (int (length pat)) ! c
                   \<and> make_delta1 delta1 pat (int (length pat)) ! c \<le> int (length pat))
       \<and> length (make_delta2 delta2 pat (int (length pat))) = length pat
       \<and> (\<forall>j < length pat. 1 \<le> make_delta2 delta2 pat (int (length pat)) ! j
                   \<and> make_delta2 delta2 pat (int (length pat)) ! j \<le> 2 * int (length pat) - 1)"
proof (intro conjI allI impI)
  have len: "int (length delta1) = ALPHABET_LEN" using assms by (simp add: ALPHABET_LEN_def)
  have m: "1 \<le> int (length pat)" using assms(1) by (cases pat) simp_all
  show "length (make_delta1 delta1 pat (int (length pat))) = 256"
    using assms by (simp add: length_make_delta1)
  show "length (make_delta2 delta2 pat (int (length pat))) = length pat"
    using assms by (simp add: length_make_delta2)
  {
    fix c :: nat assume c: "c < 256"
    have "unat (of_nat c :: byte) = c" using c by (simp add: unat_of_nat)
    then have "1 \<le> make_delta1 delta1 pat (int (length pat)) ! c
       \<and> make_delta1 delta1 pat (int (length pat)) ! c \<le> int (length pat)"
      using make_delta1_bounds [OF len m, of pat "of_nat c"] by simp
    then show "1 \<le> make_delta1 delta1 pat (int (length pat)) ! c"
      and "make_delta1 delta1 pat (int (length pat)) ! c \<le> int (length pat)" by simp_all
  }
  {
    fix j assume j: "j < length pat"
    have "int (length pat) - int j \<le> make_delta2 delta2 pat (int (length pat)) ! nat (int j)
       \<and> make_delta2 delta2 pat (int (length pat)) ! nat (int j) \<le> 2 * int (length pat) - 1"
      using j assms(4) by (intro make_delta2_bounds) simp_all
    then show "1 \<le> make_delta2 delta2 pat (int (length pat)) ! j"
      and "make_delta2 delta2 pat (int (length pat)) ! j \<le> 2 * int (length pat) - 1"
      using j by simp_all
  }
qed

theorem table_ranges_witness:
  "[65, 66, 65 :: byte] \<noteq> [] \<and> length [65, 66, 65 :: byte] \<le> 2 ^ 30
   \<and> length (replicate 256 (0 :: int)) = 256
   \<and> length [0, 0, 0 :: int] = length [65, 66, 65 :: byte]
   \<and> length (make_delta1 (replicate 256 0) [65, 66, 65] 3) = 256
   \<and> 1 \<le> make_delta1 (replicate 256 0) [65, 66, 65] 3 ! 66
   \<and> make_delta1 (replicate 256 0) [65, 66, 65] 3 ! 66 \<le> 3
   \<and> length (make_delta2 [0, 0, 0] [65, 66, 65] 3) = 3
   \<and> 1 \<le> make_delta2 [0, 0, 0] [65, 66, 65] 3 ! 0
   \<and> make_delta2 [0, 0, 0] [65, 66, 65] 3 ! 0 \<le> 5"
proof -
  have h1: "[65, 66, 65 :: byte] \<noteq> []" by simp
  have h0: "length [65, 66, 65 :: byte] \<le> 2 ^ 30" by simp
  have h2: "length (replicate 256 (0 :: int)) = 256" by simp
  have h3: "length [0, 0, 0 :: int] = length [65, 66, 65 :: byte]" by simp
  show ?thesis using table_ranges [OF h1 h0 h2 h3] by simp
qed

section \<open>Machine integers\<close>

text \<open>
  Where the conversions between \<^verbatim>\<open>size_t\<close>, \<^verbatim>\<open>int\<close> and the mathematical numbers
  are exact: below \<open>2 ^ 64\<close> for an offset, up to \<open>2 ^ 30\<close> for a pattern length.
\<close>

lemma unat_of_int_size_t:
  "0 \<le> x \<Longrightarrow> x < 2 ^ 64 \<Longrightarrow> unat (of_int x :: size_t) = nat x"
  by (simp add: unsigned_of_int take_bit_int_eq_self)

lemma unat_of_nat_size_t:
  "n < 2 ^ 64 \<Longrightarrow> unat (of_nat n :: size_t) = n"
  by (simp add: unat_of_nat)

lemma of_nat_less_size_t:
  "a < 2 ^ 64 \<Longrightarrow> b < 2 ^ 64 \<Longrightarrow> (of_nat a :: size_t) < of_nat b \<longleftrightarrow> a < b"
  by (simp add: word_of_nat_less_iff take_bit_nat_eq_self)

lemma int_of_size_t_pred:
  assumes "1 \<le> m" "m \<le> 2 ^ 30"
  shows "int_of_size_t (of_nat m - 1) = int m - 1"
proof -
  have eq: "(of_nat m - 1 :: size_t) = of_nat (m - 1)" using assms(1) by simp
  have lt: "m - 1 < 2 ^ 31" using assms by simp
  have "(ucast (of_nat (m - 1) :: size_t) :: 32 word) = of_nat (m - 1)"
    using lt by (simp add: unsigned_of_nat take_bit_nat_eq_self)
  then have "int_of_size_t (of_nat m - 1) = sint (of_nat (m - 1) :: 32 word)"
    by (simp add: int_of_size_t_def eq)
  also have "\<dots> = int (m - 1)"
    using lt by (simp add: signed_of_nat signed_take_bit_int_eq_self)
  finally show ?thesis using assms(1) by simp
qed

lemma of_nat_neq_NOT_FOUND:
  "r < 2 ^ 64 - 1 \<Longrightarrow> (of_nat r :: size_t) \<noteq> NOT_FOUND"
proof
  assume r: "r < 2 ^ 64 - 1" and "(of_nat r :: size_t) = NOT_FOUND"
  then have "unat (of_nat r :: size_t) = unat (- 1 :: size_t)" by (simp add: NOT_FOUND_def)
  moreover have "unat (- 1 :: size_t) = 2 ^ 64 - 1"
    by (simp add: unsigned_minus_1_eq_mask mask_eq_exp_minus_1)
  ultimately show False using r by (simp add: unat_of_nat)
qed

section \<open>Naive search\<close>

lemma occurs_at_iff:
  "occurs_at B P s \<longleftrightarrow> s + length P \<le> length B \<and> (\<forall>k < length P. B ! (s + k) = P ! k)"
proof (cases "s + length P \<le> length B")
  case True
  then have len: "length (take (length P) (drop s B)) = length P" by simp
  have "take (length P) (drop s B) = P \<longleftrightarrow> (\<forall>k < length P. B ! (s + k) = P ! k)"
    using True by (simp add: list_eq_iff_nth_eq)
  then show ?thesis using True by (simp add: occurs_at_def)
next
  case False
  then show ?thesis by (simp add: occurs_at_def)
qed

lemma naive_search_Some:
  "naive_search B P s = Some r \<Longrightarrow>
   s \<le> r \<and> occurs_at B P r \<and> (\<forall>z. s \<le> z \<and> z < r \<longrightarrow> \<not> occurs_at B P z)"
proof (induction B P s rule: naive_search.induct)
  case (1 B P s)
  show ?case
  proof (cases "s + length P \<le> length B")
    case True
    show ?thesis
    proof (cases "take (length P) (drop s B) = P")
      case eq: True
      then have "r = s" using "1.prems" True by (subst (asm) naive_search.simps) simp
      then show ?thesis using True eq by (auto simp: occurs_at_def)
    next
      case ne: False
      then have "naive_search B P (s + 1) = Some r"
        using "1.prems" True by (subst (asm) naive_search.simps) simp
      from "1.IH" [OF True ne this]
      have ih: "s + 1 \<le> r \<and> occurs_at B P r \<and> (\<forall>z. s + 1 \<le> z \<and> z < r \<longrightarrow> \<not> occurs_at B P z)" .
      have "\<not> occurs_at B P s" using ne by (simp add: occurs_at_def)
      then have "\<forall>z. s \<le> z \<and> z < r \<longrightarrow> \<not> occurs_at B P z"
        using ih by (metis Suc_eq_plus1 Suc_leI le_neq_implies_less)
      then show ?thesis using ih by simp
    qed
  next
    case False
    then show ?thesis using "1.prems" by (subst (asm) naive_search.simps) simp
  qed
qed

lemma naive_search_None:
  "naive_search B P s = None \<Longrightarrow> s \<le> z \<Longrightarrow> \<not> occurs_at B P z"
proof (induction B P s rule: naive_search.induct)
  case (1 B P s)
  show ?case
  proof (cases "s + length P \<le> length B")
    case True
    have ne: "take (length P) (drop s B) \<noteq> P"
      using "1.prems"(1) True by (subst (asm) naive_search.simps) (auto split: if_splits)
    then have nxt: "naive_search B P (s + 1) = None"
      using "1.prems"(1) True by (subst (asm) naive_search.simps) simp
    show ?thesis
    proof (cases "z = s")
      case True
      then show ?thesis using ne by (simp add: occurs_at_def)
    next
      case False
      then have "s + 1 \<le> z" using "1.prems"(2) by simp
      then show ?thesis using "1.IH" [OF True ne nxt] by simp
    qed
  next
    case False
    then show ?thesis using "1.prems"(2) by (simp add: occurs_at_def)
  qed
qed

text \<open>offsets without an occurrence can be skipped\<close>
lemma naive_search_skip:
  "s \<le> s' \<Longrightarrow> \<forall>z. s \<le> z \<and> z < s' \<longrightarrow> \<not> occurs_at B P z \<Longrightarrow>
   naive_search B P s = naive_search B P s'"
proof (induction "s' - s" arbitrary: s)
  case 0
  then show ?case by simp
next
  case (Suc n)
  then have lt: "s < s'" by simp
  then have no: "\<not> occurs_at B P s" using Suc.prems by simp
  have ih: "naive_search B P (s + 1) = naive_search B P s'"
    using Suc by (intro Suc.hyps) auto
  show ?case
  proof (cases "s + length P \<le> length B")
    case True
    then have "take (length P) (drop s B) \<noteq> P" using no by (simp add: occurs_at_def)
    then show ?thesis using True ih by (subst naive_search.simps) simp
  next
    case False
    then have "\<not> s' + length P \<le> length B" using lt by simp
    then have "naive_search B P s' = None" by (subst naive_search.simps) simp
    moreover have "naive_search B P s = None" using False by (subst naive_search.simps) simp
    ultimately show ?thesis by simp
  qed
qed

section \<open>The scan loop\<close>

text \<open>
  The inner loop, started at the end of the window that begins at offset \<open>s\<close>, stops
  at the first pattern position \<open>j'\<close> (from the right) whose byte differs, or at
  \<open>j' = -1\<close> when the whole window matches. Its cursor is then \<open>s + j'\<close> modulo
  \<open>2 ^ 64\<close>, and every index it has read is inside its array.
\<close>

lemma bm_inner_spec:
  assumes "s + length pat \<le> length string" "length string < 2 ^ 64"
  shows "- 1 \<le> j \<Longrightarrow> j < int (length pat) \<Longrightarrow>
     \<exists>j'. - 1 \<le> j' \<and> j' \<le> j
       \<and> bm_inner string pat (of_int (int s + j)) j = Inr (of_int (int s + j'), j')
       \<and> (\<forall>k. j' < k \<and> k \<le> j \<longrightarrow> string ! nat (int s + k) = pat ! nat k)
       \<and> (0 \<le> j' \<longrightarrow> string ! nat (int s + j') \<noteq> pat ! nat j')"
proof (induction "nat (j + 1)" arbitrary: j)
  case 0
  then have j: "j = - 1" by simp
  have "bm_inner string pat (of_int (int s + j)) j = Inr (of_int (int s + j), j)"
    using j by (subst bm_inner.simps) simp
  then show ?case using j by (intro exI [of _ j]) auto
next
  case (Suc n)
  then have j0: "0 \<le> j" by simp
  have range: "0 \<le> int s + j" "int s + j < 2 ^ 64"
    using j0 Suc.prems assms by simp_all
  have ui: "unat (of_int (int s + j) :: size_t) = nat (int s + j)"
    using range by (rule unat_of_int_size_t)
  have inb: "nat (int s + j) < length string" "nat j < length pat"
    using j0 Suc.prems assms by simp_all
  show ?case
  proof (cases "string ! nat (int s + j) = pat ! nat j")
    case True
    define i :: size_t where "i = of_int (int s + j)"
    have "bm_inner string pat i j = bm_inner string pat (i - 1) (j - 1)"
      using j0 ui inb True unfolding i_def [symmetric] by (subst bm_inner.simps) simp
    moreover have "i - 1 = of_int (int s + (j - 1))" by (simp add: i_def)
    ultimately have unf: "bm_inner string pat (of_int (int s + j)) j
        = bm_inner string pat (of_int (int s + (j - 1))) (j - 1)"
      by (simp only: i_def)
    have "n = nat (j - 1 + 1)" using Suc.hyps(2) by simp
    from Suc.hyps(1) [OF this] Suc.prems j0
    obtain j' where j': "- 1 \<le> j'" "j' \<le> j - 1"
        "bm_inner string pat (of_int (int s + (j - 1))) (j - 1) = Inr (of_int (int s + j'), j')"
        "\<forall>k. j' < k \<and> k \<le> j - 1 \<longrightarrow> string ! nat (int s + k) = pat ! nat k"
        "0 \<le> j' \<longrightarrow> string ! nat (int s + j') \<noteq> pat ! nat j'"
      by auto
    have "\<forall>k. j' < k \<and> k \<le> j \<longrightarrow> string ! nat (int s + k) = pat ! nat k"
    proof (intro allI impI)
      fix k assume k: "j' < k \<and> k \<le> j"
      show "string ! nat (int s + k) = pat ! nat k"
      proof (cases "k = j")
        case True then show ?thesis using \<open>string ! nat (int s + j) = pat ! nat j\<close> by simp
      next
        case False then show ?thesis using j'(4) k by simp
      qed
    qed
    then show ?thesis using j' unf by (intro exI [of _ j']) simp
  next
    case False
    define i :: size_t where "i = of_int (int s + j)"
    have "bm_inner string pat i j = Inr (i, j)"
      using j0 ui inb False unfolding i_def [symmetric] by (subst bm_inner.simps) simp
    then have "bm_inner string pat (of_int (int s + j)) j = Inr (of_int (int s + j), j)"
      by (simp only: i_def)
    then show ?thesis using j0 False by (intro exI [of _ j]) auto
  qed
qed

text \<open>
  The shift after a mismatch at pattern position \<open>j\<close> of the window at \<open>s\<close>: it moves
  the window forward, by at most twice the pattern length, and not beyond the next
  occurrence of the pattern.
\<close>

lemma shift_bounds:
  assumes "length a1 = 256" "length a2 = length pat" "j < length pat"
  shows "int (length pat) - int j
           \<le> max_macro (make_delta1 a1 pat (int (length pat)) ! unat (c :: byte))
                       (make_delta2 a2 pat (int (length pat)) ! j)
       \<and> max_macro (make_delta1 a1 pat (int (length pat)) ! unat c)
                   (make_delta2 a2 pat (int (length pat)) ! j) \<le> 2 * int (length pat) - 1"
proof -
  have len: "int (length a1) = ALPHABET_LEN" using assms by (simp add: ALPHABET_LEN_def)
  have m: "1 \<le> int (length pat)" using assms(3) by simp
  have d1: "1 \<le> make_delta1 a1 pat (int (length pat)) ! unat c
          \<and> make_delta1 a1 pat (int (length pat)) ! unat c \<le> int (length pat)"
    using len m by (rule make_delta1_bounds)
  have "int (length pat) - int j \<le> make_delta2 a2 pat (int (length pat)) ! nat (int j)
      \<and> make_delta2 a2 pat (int (length pat)) ! nat (int j) \<le> 2 * int (length pat) - 1"
    using assms by (intro make_delta2_bounds) simp_all
  then show ?thesis using d1 m by (simp add: max_macro_def)
qed

lemma delta2_shift_safe:
  assumes "length a2 = length pat"
    and "j < length pat" "s + length pat \<le> length string"
    and suffix: "\<forall>k. j < k \<and> k < length pat \<longrightarrow> string ! (s + k) = pat ! k"
    and differ: "string ! (s + j) \<noteq> pat ! j"
    and "1 \<le> t" and occ: "occurs_at string pat (s + t)"
  shows "make_delta2 a2 pat (int (length pat)) ! j \<le> int t + (int (length pat) - 1 - int j)"
proof -
  let ?m = "int (length pat)"
  have at: "\<forall>k < length pat. string ! (s + t + k) = pat ! k"
    using occ by (simp add: occurs_at_iff)
  have base: "0 \<le> int j" "int j < ?m" "?m = int (length a2)" using assms by simp_all
  have "make_delta2 a2 pat ?m ! nat (int j) \<le> int t + (?m - 1 - int j)"
  proof (cases "t \<le> j")
    case True
    have "\<forall>k. int j < k \<and> k < ?m \<longrightarrow> pat ! nat (k - int t) = pat ! nat k"
    proof (intro allI impI)
      fix k :: int assume k: "int j < k \<and> k < ?m"
      define kn where "kn = nat k"
      have kn: "j < kn" "kn < length pat" "t \<le> kn" using k True by (auto simp: kn_def)
      have "kn - t < length pat" using kn by simp
      then have "string ! (s + t + (kn - t)) = pat ! (kn - t)" using at by blast
      moreover have "s + t + (kn - t) = s + kn" using kn by simp
      moreover have "string ! (s + kn) = pat ! kn" using suffix kn by simp
      ultimately have "pat ! (kn - t) = pat ! kn" by simp
      moreover have "nat (k - int t) = kn - t" using k by (simp add: kn_def)
      ultimately show "pat ! nat (k - int t) = pat ! nat k" by (simp add: kn_def)
    qed
    moreover have "pat ! nat (int j - int t) \<noteq> pat ! nat (int j)"
    proof -
      have "j - t < length pat" using assms(2) by simp
      then have "string ! (s + t + (j - t)) = pat ! (j - t)" using at by blast
      moreover have "s + t + (j - t) = s + j" using True by simp
      ultimately have "pat ! (j - t) \<noteq> pat ! j" using differ by simp
      moreover have "nat (int j - int t) = j - t" by simp
      ultimately show ?thesis by simp
    qed
    ultimately show ?thesis
      using base True \<open>1 \<le> t\<close> by (intro make_delta2_suffix_shift) simp_all
  next
    case False
    have "int t < ?m \<longrightarrow> is_prefix pat ?m (int t)"
    proof
      assume tm: "int t < ?m"
      have "\<forall>k. 0 \<le> k \<and> k < ?m - int t \<longrightarrow> pat ! nat k = pat ! nat (int t + k)"
      proof (intro allI impI)
        fix k :: int assume k: "0 \<le> k \<and> k < ?m - int t"
        define kn where "kn = nat k"
        have kn: "kn < length pat" "t + kn < length pat" "j < t + kn"
          using k False by (auto simp: kn_def)
        have "string ! (s + t + kn) = pat ! kn" using at kn by blast
        moreover have "string ! (s + (t + kn)) = pat ! (t + kn)" using suffix kn by blast
        ultimately have "pat ! kn = pat ! (t + kn)" by (simp add: add.assoc)
        moreover have "nat (int t + k) = t + kn" using k by (auto simp: kn_def)
        ultimately show "pat ! nat k = pat ! nat (int t + k)" by (simp add: kn_def)
      qed
      then show "is_prefix pat ?m (int t)" by (simp add: is_prefix_iff)
    qed
    then show ?thesis using base False by (intro make_delta2_prefix_shift) simp_all
  qed
  then show ?thesis by simp
qed

lemma delta1_shift_safe:
  assumes "length a1 = 256"
    and "j < length pat" "s + length pat \<le> length string"
    and "1 \<le> t" and occ: "occurs_at string pat (s + t)"
  shows "make_delta1 a1 pat (int (length pat)) ! unat (string ! (s + j))
           \<le> int t + (int (length pat) - 1 - int j)"
proof -
  let ?m = "int (length pat)"
  have len: "int (length a1) = ALPHABET_LEN" using assms by (simp add: ALPHABET_LEN_def)
  have at: "\<forall>k < length pat. string ! (s + t + k) = pat ! k"
    using occ by (simp add: occurs_at_iff)
  show ?thesis
  proof (cases "t \<le> j")
    case True
    have "j - t < length pat" using assms(2) by simp
    then have "string ! (s + t + (j - t)) = pat ! (j - t)" using at by blast
    moreover have "s + t + (j - t) = s + j" using True by simp
    moreover have "nat (int (j - t)) = j - t" by (rule nat_int)
    ultimately have "pat ! nat (int (j - t)) = string ! (s + j)" by (simp only:)
    moreover have "0 \<le> int (j - t)" "int (j - t) < ?m - 1" using True assms by auto
    ultimately have "make_delta1 a1 pat ?m ! unat (string ! (s + j)) \<le> ?m - 1 - int (j - t)"
      using len by (intro make_delta1_occurrence) simp_all
    then show ?thesis using True by simp
  next
    case False
    have "1 \<le> ?m" using assms(2) by simp
    with len have "make_delta1 a1 pat ?m ! unat (string ! (s + j)) \<le> ?m"
      using make_delta1_bounds by blast
    then show ?thesis using False by simp
  qed
qed

lemma shift_safe:
  assumes "length a1 = 256" "length a2 = length pat"
    and "j < length pat" "s + length pat \<le> length string"
    and "\<forall>k. j < k \<and> k < length pat \<longrightarrow> string ! (s + k) = pat ! k"
    and "string ! (s + j) \<noteq> pat ! j"
    and "1 \<le> t" and "occurs_at string pat (s + t)"
  shows "max_macro (make_delta1 a1 pat (int (length pat)) ! unat (string ! (s + j)))
                   (make_delta2 a2 pat (int (length pat)) ! j)
           \<le> int t + (int (length pat) - 1 - int j)"
  using delta1_shift_safe [OF assms(1,3,4,7,8)] delta2_shift_safe [OF assms(2-8)]
  by (simp add: max_macro_def)

lemma bm_loop_exit:
  "\<not> i < stringlen \<Longrightarrow>
   bm_loop string stringlen pat patlen delta1 delta2 i = Some (Inr NOT_FOUND)"
  by (subst bm_loop.simps) simp

lemma bm_loop_found:
  "i < stringlen \<Longrightarrow> bm_inner string pat i (int_of_size_t (patlen - 1)) = Inr (i', j) \<Longrightarrow>
   j < 0 \<Longrightarrow>
   bm_loop string stringlen pat patlen delta1 delta2 i = Some (Inr (i' + 1))"
  by (subst bm_loop.simps) simp

lemma bm_loop_shift:
  "i < stringlen \<Longrightarrow> bm_inner string pat i (int_of_size_t (patlen - 1)) = Inr (i', j) \<Longrightarrow>
   0 \<le> j \<Longrightarrow> unat i' < length string \<Longrightarrow> unat (string ! unat i') < length delta1 \<Longrightarrow>
   nat j < length delta2 \<Longrightarrow>
   bm_loop string stringlen pat patlen delta1 delta2 i
     = bm_loop string stringlen pat patlen delta1 delta2
         (i' + of_int (max_macro (delta1 ! unat (string ! unat i')) (delta2 ! nat j)))"
  by (subst bm_loop.simps) simp

lemma naive_search_here:
  "occurs_at B P s \<Longrightarrow> naive_search B P s = Some s"
  by (subst naive_search.simps) (simp add: occurs_at_def)

lemma naive_search_beyond:
  "\<not> s + length P \<le> length B \<Longrightarrow> naive_search B P s = None"
  by (subst naive_search.simps) simp

lemma bm_loop_naive:
  assumes "pat \<noteq> []" "length pat \<le> 2 ^ 30" "length string + 2 * length pat \<le> 2 ^ 64"
    and "length a1 = 256" "length a2 = length pat"
  shows "s \<le> length string + length pat \<Longrightarrow>
     bm_loop string (of_nat (length string)) pat (of_nat (length pat))
       (make_delta1 a1 pat (int (length pat))) (make_delta2 a2 pat (int (length pat)))
       (of_nat (s + length pat - 1))
     = Some (Inr (case naive_search string pat s of Some r \<Rightarrow> of_nat r | None \<Rightarrow> NOT_FOUND))"
proof (induction "length string - s" arbitrary: s rule: less_induct)
  case less
  let ?n = "length string" and ?m = "length pat"
  let ?d1 = "make_delta1 a1 pat (int ?m)" and ?d2 = "make_delta2 a2 pat (int ?m)"
  have m1: "1 \<le> ?m" using assms(1) by (cases pat) simp_all
  have n64: "?n < 2 ^ 64" using assms(3) m1 by simp
  have i64: "s + ?m - 1 < 2 ^ 64" using less.prems assms(3) m1 by simp
  have guard: "(of_nat (s + ?m - 1) :: size_t) < of_nat ?n \<longleftrightarrow> s + ?m - 1 < ?n"
    using i64 n64 by (rule of_nat_less_size_t)
  show ?case
  proof (cases "s + ?m - 1 < ?n")
    case False
    then have "\<not> s + ?m \<le> ?n" using m1 by simp
    then have "naive_search string pat s = None" by (rule naive_search_beyond)
    moreover have "bm_loop string (of_nat ?n) pat (of_nat ?m) ?d1 ?d2 (of_nat (s + ?m - 1))
        = Some (Inr NOT_FOUND)"
      using False guard by (intro bm_loop_exit) simp
    ultimately show ?thesis by simp
  next
    case True
    then have fit: "s + ?m \<le> ?n" using m1 by simp
    have g: "(of_nat (s + ?m - 1) :: size_t) < of_nat ?n" using True guard by simp
    have j0: "int_of_size_t (of_nat ?m - 1) = int ?m - 1"
      using m1 assms(2) by (rule int_of_size_t_pred)
    have i0: "(of_nat (s + ?m - 1) :: size_t) = of_int (int s + (int ?m - 1))"
    proof -
      have "int (s + ?m - 1) = int s + (int ?m - 1)" using m1 by simp
      then show ?thesis by (metis of_int_of_nat_eq)
    qed
    from bm_inner_spec [OF fit n64, of "int ?m - 1"] m1
    obtain j' where j': "- 1 \<le> j'" "j' \<le> int ?m - 1"
      "bm_inner string pat (of_int (int s + (int ?m - 1))) (int ?m - 1)
         = Inr (of_int (int s + j'), j')"
      "\<forall>k. j' < k \<and> k \<le> int ?m - 1 \<longrightarrow> string ! nat (int s + k) = pat ! nat k"
      "0 \<le> j' \<longrightarrow> string ! nat (int s + j') \<noteq> pat ! nat j'"
      by auto
    have inner: "bm_inner string pat (of_nat (s + ?m - 1)) (int_of_size_t (of_nat ?m - 1))
         = Inr (of_int (int s + j'), j')"
      using j'(3) by (simp only: i0 j0)
    show ?thesis
    proof (cases "j' < 0")
      case neg: True
      then have jm: "j' = - 1" using j'(1) by simp
      have "bm_loop string (of_nat ?n) pat (of_nat ?m) ?d1 ?d2 (of_nat (s + ?m - 1))
          = Some (Inr (of_int (int s + j') + 1))"
        using g inner neg by (rule bm_loop_found)
      moreover have "(of_int (int s + j') + 1 :: size_t) = of_nat s" by (simp add: jm)
      moreover have "occurs_at string pat s"
        unfolding occurs_at_iff
      proof (intro conjI allI impI)
        show "s + ?m \<le> ?n" by (rule fit)
        fix k assume "k < ?m"
        then have "string ! nat (int s + int k) = pat ! nat (int k)"
          using j'(4) jm by simp
        moreover have "nat (int s + int k) = s + k" by simp
        ultimately show "string ! (s + k) = pat ! k" by simp
      qed
      then have "naive_search string pat s = Some s" by (rule naive_search_here)
      ultimately show ?thesis by simp
    next
      case pos: False
      define jn where "jn = nat j'"
      have jn: "int jn = j'" "jn < ?m" using pos j'(2) m1 by (simp_all add: jn_def)
      have i': "(of_int (int s + j') :: size_t) = of_nat (s + jn)"
        by (simp add: jn(1) [symmetric])
      have ui': "unat (of_nat (s + jn) :: size_t) = s + jn"
        using jn(2) fit n64 by (intro unat_of_nat_size_t) simp
      have suffix: "\<forall>k. jn < k \<and> k < ?m \<longrightarrow> string ! (s + k) = pat ! k"
      proof (intro allI impI)
        fix k assume "jn < k \<and> k < ?m"
        then have "string ! nat (int s + int k) = pat ! nat (int k)"
          using j'(4) jn(1) by simp
        moreover have "nat (int s + int k) = s + k" by simp
        ultimately show "string ! (s + k) = pat ! k" by simp
      qed
      have differ: "string ! (s + jn) \<noteq> pat ! jn"
      proof -
        have "string ! nat (int s + j') \<noteq> pat ! nat j'" using j'(5) pos by simp
        moreover have "nat (int s + j') = s + jn" using pos by (simp add: jn_def)
        ultimately show ?thesis by (simp add: jn_def)
      qed
      define sh where "sh = max_macro (?d1 ! unat (string ! (s + jn))) (?d2 ! jn)"
      have shb: "int ?m - int jn \<le> sh" "sh \<le> 2 * int ?m - 1"
        using shift_bounds [OF assms(4,5) jn(2), of "string ! (s + jn)"]
        by (simp_all add: sh_def)
      define s' where "s' = nat (int s + int jn + sh - (int ?m - 1))"
      have s'i: "int s' = int s + int jn + sh - (int ?m - 1)" using shb by (simp add: s'_def)
      have s'gt: "s < s'" using s'i shb by simp
      have s'le: "s' \<le> ?n + ?m" using s'i shb fit jn(2) by simp
      have step: "bm_loop string (of_nat ?n) pat (of_nat ?m) ?d1 ?d2 (of_nat (s + ?m - 1))
          = bm_loop string (of_nat ?n) pat (of_nat ?m) ?d1 ?d2
              (of_nat (s + jn) + of_int (max_macro (?d1 ! unat (string ! unat (of_nat (s + jn) :: size_t)))
                                                   (?d2 ! nat j')))"
      proof (rule bm_loop_shift [OF g])
        show "bm_inner string pat (of_nat (s + ?m - 1)) (int_of_size_t (of_nat ?m - 1))
           = Inr (of_nat (s + jn), j')" using inner i' by simp
        show "0 \<le> j'" using pos by simp
        show "unat (of_nat (s + jn) :: size_t) < ?n" using ui' jn(2) fit by simp
        show "unat (string ! unat (of_nat (s + jn) :: size_t)) < length ?d1"
          using unat_byte_less [of "string ! unat (of_nat (s + jn) :: size_t)"] assms(4)
          by (simp add: length_make_delta1)
        show "nat j' < length ?d2" using jn assms(5) by (simp add: length_make_delta2 jn_def)
      qed
      have "(of_nat (s + jn) + of_int sh :: size_t) = of_int (int (s + jn) + sh)"
        by simp
      also have "int (s + jn) + sh = int (s' + ?m - 1)" using s'i m1 by simp
      finally have nexti: "(of_nat (s + jn) + of_int sh :: size_t) = of_nat (s' + ?m - 1)"
        by (metis of_int_of_nat_eq)
      have step': "bm_loop string (of_nat ?n) pat (of_nat ?m) ?d1 ?d2 (of_nat (s + ?m - 1))
          = bm_loop string (of_nat ?n) pat (of_nat ?m) ?d1 ?d2 (of_nat (s' + ?m - 1))"
      proof -
        have e1: "nat j' = jn" by (simp add: jn_def)
        show ?thesis using step unfolding ui' e1 sh_def [symmetric] nexti .
      qed
      have none: "\<forall>z. s \<le> z \<and> z < s' \<longrightarrow> \<not> occurs_at string pat z"
      proof (intro allI impI notI)
        fix z assume z: "s \<le> z \<and> z < s'" and occ: "occurs_at string pat z"
        show False
        proof (cases "z = s")
          case True
          then have "string ! (s + jn) = pat ! jn" using occ jn(2) by (simp add: occurs_at_iff)
          then show False using differ by simp
        next
          case False
          define t where "t = z - s"
          have t: "1 \<le> t" "s + t = z" using z False by (auto simp: t_def)
          have "sh \<le> int t + (int ?m - 1 - int jn)"
            unfolding sh_def using assms(4,5) jn(2) fit suffix differ t(1) occ
            by (intro shift_safe) (simp_all add: t(2))
          moreover have "int z < int s'" using z by simp
          ultimately show False using s'i t(2) by simp
        qed
      qed
      have "naive_search string pat s = naive_search string pat s'"
        using s'gt none by (intro naive_search_skip) simp_all
      moreover have "bm_loop string (of_nat ?n) pat (of_nat ?m) ?d1 ?d2 (of_nat (s' + ?m - 1))
         = Some (Inr (case naive_search string pat s' of Some r \<Rightarrow> of_nat r | None \<Rightarrow> NOT_FOUND))"
        using s'gt s'le True m1 by (intro less.hyps) simp_all
      ultimately show ?thesis using step' by simp
    qed
  qed
qed

lemma bm_search_naive:
  assumes "pat \<noteq> []" "length pat \<le> 2 ^ 30" "length string + 2 * length pat \<le> 2 ^ 64"
    and "length a1 = 256" "length a2 = length pat"
  shows "bm_search string (of_nat (length string)) pat (of_nat (length pat))
       (make_delta1 a1 pat (int (length pat))) (make_delta2 a2 pat (int (length pat)))
     = Some (Inr (case naive_search string pat 0 of Some r \<Rightarrow> of_nat r | None \<Rightarrow> NOT_FOUND))"
proof -
  have m1: "1 \<le> length pat" using assms(1) by (cases pat) simp_all
  then have "(of_nat (length pat) - 1 :: size_t) = of_nat (0 + length pat - 1)" by simp
  then show ?thesis
    unfolding bm_search_def using bm_loop_naive [OF assms, of 0] by simp
qed

text \<open>an occurrence ends inside the buffer, so its offset is below the sentinel\<close>
lemma occurrence_offset:
  assumes "pat \<noteq> []" "length string + 2 * length pat \<le> 2 ^ 64" "occurs_at string pat r"
  shows "unat (of_nat r :: size_t) = r" "(of_nat r :: size_t) \<noteq> NOT_FOUND"
proof -
  have m1: "1 \<le> length pat" using assms(1) by (cases pat) simp_all
  have "r + length pat \<le> length string" using assms(3) by (simp add: occurs_at_def)
  then have r: "r < 2 ^ 64 - 1" using assms(2) m1 by simp
  then show "unat (of_nat r :: size_t) = r" by (intro unat_of_nat_size_t) simp
  show "(of_nat r :: size_t) \<noteq> NOT_FOUND" using r by (rule of_nat_neq_NOT_FOUND)
qed

lemma bm_search_cases:
  assumes "pat \<noteq> []" "length pat \<le> 2 ^ 30" "length string + 2 * length pat \<le> 2 ^ 64"
    and "length a1 = 256" "length a2 = length pat"
  shows "(naive_search string pat 0 = None
          \<and> bm_search string (of_nat (length string)) pat (of_nat (length pat))
               (make_delta1 a1 pat (int (length pat))) (make_delta2 a2 pat (int (length pat)))
             = Some (Inr NOT_FOUND))
       \<or> (\<exists>r. naive_search string pat 0 = Some r \<and> occurs_at string pat r
              \<and> unat (of_nat r :: size_t) = r \<and> (of_nat r :: size_t) \<noteq> NOT_FOUND
              \<and> bm_search string (of_nat (length string)) pat (of_nat (length pat))
                   (make_delta1 a1 pat (int (length pat))) (make_delta2 a2 pat (int (length pat)))
                 = Some (Inr (of_nat r)))"
proof (cases "naive_search string pat 0")
  case None
  then show ?thesis using bm_search_naive [OF assms] by simp
next
  case (Some r)
  then have occ: "occurs_at string pat r" using naive_search_Some by blast
  show ?thesis
    using Some occ occurrence_offset [OF assms(1,3) occ] bm_search_naive [OF assms]
    by (intro disjI2 exI [of _ r]) simp
qed

section \<open>Properties of the scanner\<close>

text \<open>
  The properties are stated for the call as \<^verbatim>\<open>main\<close> makes it: the length arguments
  are the lengths of the arrays, the tables are the ones \<open>make_delta1\<close> and
  \<open>make_delta2\<close> fill for the pattern, in arrays of 256 and of pattern-length entries
  with any initial contents. The pattern has at most \<open>2 ^ 30\<close> bytes, so that no
  \<^verbatim>\<open>int\<close> overflows, and buffer length plus twice the pattern length is at most
  \<open>2 ^ 64\<close>, so that the cursor does not wrap around when it is advanced.
\<close>

text \<open>
  Claim C1 (soundness). The scanner returns, and when the value returned is not the
  sentinel, the bytes of the buffer from that offset on, as many as the pattern has,
  are exactly the pattern.
\<close>

theorem bm_search_sound:
  assumes "pat \<noteq> []" "length pat \<le> 2 ^ 30" "length string + 2 * length pat \<le> 2 ^ 64"
    and "length delta1 = 256" "length delta2 = length pat"
  shows "\<exists>r. bm_search string (of_nat (length string)) pat (of_nat (length pat))
               (make_delta1 delta1 pat (int (length pat)))
               (make_delta2 delta2 pat (int (length pat))) = Some (Inr r)
           \<and> (r \<noteq> NOT_FOUND \<longrightarrow> take (length pat) (drop (unat r) string) = pat)"
  using bm_search_cases [OF assms] by (auto simp: occurs_at_def)

theorem bm_search_sound_witness:
  "[65, 66 :: byte] \<noteq> [] \<and> length [65, 66 :: byte] \<le> 2 ^ 30
   \<and> length [67, 65, 66, 65, 66, 68 :: byte] + 2 * length [65, 66 :: byte] \<le> 2 ^ 64
   \<and> length (replicate 256 (0 :: int)) = 256 \<and> length [0, 0 :: int] = length [65, 66 :: byte]
   \<and> bm_search [67, 65, 66, 65, 66, 68] 6 [65, 66] 2
        (make_delta1 (replicate 256 0) [65, 66] 2) (make_delta2 [0, 0] [65, 66] 2) = Some (Inr 1)
   \<and> (1 :: size_t) \<noteq> NOT_FOUND
   \<and> take (length [65, 66 :: byte]) (drop (unat (1 :: size_t)) [67, 65, 66, 65, 66, 68 :: byte])
       = [65, 66]"
proof -
  have h1: "[65, 66 :: byte] \<noteq> []" by simp
  have h2: "length [65, 66 :: byte] \<le> 2 ^ 30" by simp
  have h3: "length [67, 65, 66, 65, 66, 68 :: byte] + 2 * length [65, 66 :: byte] \<le> 2 ^ 64"
    by simp
  have h4: "length (replicate 256 (0 :: int)) = 256" by simp
  have h5: "length [0, 0 :: int] = length [65, 66 :: byte]" by simp
  have ev: "bm_search [67, 65, 66, 65, 66, 68] 6 [65, 66] 2
        (make_delta1 (replicate 256 0) [65, 66] 2) (make_delta2 [0, 0] [65, 66] 2) = Some (Inr 1)"
    by code_simp
  have nf: "(1 :: size_t) \<noteq> NOT_FOUND" by (simp add: NOT_FOUND_def)
  from bm_search_sound [OF h1 h2 h3 h4 h5]
  obtain r where r: "bm_search [67, 65, 66, 65, 66, 68] 6 [65, 66] 2
        (make_delta1 (replicate 256 0) [65, 66] 2) (make_delta2 [0, 0] [65, 66] 2) = Some (Inr r)"
    "r \<noteq> NOT_FOUND \<longrightarrow>
       take (length [65, 66 :: byte]) (drop (unat r) [67, 65, 66, 65, 66, 68 :: byte]) = [65, 66]"
    by auto
  have "r = 1" using r(1) ev by simp
  then show ?thesis using r(2) ev nf h1 h2 h3 h4 h5 by blast
qed

text \<open>
  Claim C2 (completeness). The scanner returns, and when it returns the sentinel, the
  naive search that tries every offset from 0 on finds nothing and the pattern occurs
  at no offset of the buffer: no shift has skipped an occurrence.
\<close>

theorem bm_search_complete:
  assumes "pat \<noteq> []" "length pat \<le> 2 ^ 30" "length string + 2 * length pat \<le> 2 ^ 64"
    and "length delta1 = 256" "length delta2 = length pat"
  shows "\<exists>r. bm_search string (of_nat (length string)) pat (of_nat (length pat))
               (make_delta1 delta1 pat (int (length pat)))
               (make_delta2 delta2 pat (int (length pat))) = Some (Inr r)
           \<and> (r = NOT_FOUND \<longrightarrow>
                 naive_search string pat 0 = None \<and> (\<forall>s. \<not> occurs_at string pat s))"
  using bm_search_cases [OF assms]
proof
  assume "naive_search string pat 0 = None
          \<and> bm_search string (of_nat (length string)) pat (of_nat (length pat))
               (make_delta1 delta1 pat (int (length pat)))
               (make_delta2 delta2 pat (int (length pat)))
             = Some (Inr NOT_FOUND)"
  moreover from this have "\<forall>s. \<not> occurs_at string pat s"
    using naive_search_None [of string pat 0] by simp
  ultimately show ?thesis by simp
next
  assume "\<exists>r. naive_search string pat 0 = Some r \<and> occurs_at string pat r
              \<and> unat (of_nat r :: size_t) = r \<and> (of_nat r :: size_t) \<noteq> NOT_FOUND
              \<and> bm_search string (of_nat (length string)) pat (of_nat (length pat))
                   (make_delta1 delta1 pat (int (length pat)))
                   (make_delta2 delta2 pat (int (length pat)))
                 = Some (Inr (of_nat r))"
  then show ?thesis by auto
qed

theorem bm_search_complete_witness:
  "[65, 66 :: byte] \<noteq> [] \<and> length [65, 66 :: byte] \<le> 2 ^ 30
   \<and> length [66, 65, 65, 67, 66 :: byte] + 2 * length [65, 66 :: byte] \<le> 2 ^ 64
   \<and> length (replicate 256 (7 :: int)) = 256 \<and> length [9, 9 :: int] = length [65, 66 :: byte]
   \<and> bm_search [66, 65, 65, 67, 66] 5 [65, 66] 2
        (make_delta1 (replicate 256 7) [65, 66] 2) (make_delta2 [9, 9] [65, 66] 2)
        = Some (Inr NOT_FOUND)
   \<and> naive_search [66, 65, 65, 67, 66] [65, 66] 0 = None
   \<and> (\<forall>s. \<not> occurs_at [66, 65, 65, 67, 66] [65, 66] s)"
proof -
  have h1: "[65, 66 :: byte] \<noteq> []" by simp
  have h2: "length [65, 66 :: byte] \<le> 2 ^ 30" by simp
  have h3: "length [66, 65, 65, 67, 66 :: byte] + 2 * length [65, 66 :: byte] \<le> 2 ^ 64"
    by simp
  have h4: "length (replicate 256 (7 :: int)) = 256" by simp
  have h5: "length [9, 9 :: int] = length [65, 66 :: byte]" by simp
  have ev: "bm_search [66, 65, 65, 67, 66] 5 [65, 66] 2
        (make_delta1 (replicate 256 7) [65, 66] 2) (make_delta2 [9, 9] [65, 66] 2)
        = Some (Inr NOT_FOUND)"
    by code_simp
  from bm_search_complete [OF h1 h2 h3 h4 h5]
  obtain r where r: "bm_search [66, 65, 65, 67, 66] 5 [65, 66] 2
        (make_delta1 (replicate 256 7) [65, 66] 2) (make_delta2 [9, 9] [65, 66] 2) = Some (Inr r)"
    "r = NOT_FOUND \<longrightarrow> naive_search [66, 65, 65, 67, 66] [65, 66] 0 = None
        \<and> (\<forall>s. \<not> occurs_at [66, 65, 65, 67, 66] [65, 66] s)"
    by auto
  have "r = NOT_FOUND" using r(1) ev by simp
  then show ?thesis using r(2) ev h1 h2 h3 h4 h5 by blast
qed

text \<open>
  Claim C3 (leftmost match). The scanner returns, and when the value returned is not the
  sentinel, the pattern occurs at that offset and at no smaller one.
\<close>

theorem bm_search_leftmost:
  assumes "pat \<noteq> []" "length pat \<le> 2 ^ 30" "length string + 2 * length pat \<le> 2 ^ 64"
    and "length delta1 = 256" "length delta2 = length pat"
  shows "\<exists>r. bm_search string (of_nat (length string)) pat (of_nat (length pat))
               (make_delta1 delta1 pat (int (length pat)))
               (make_delta2 delta2 pat (int (length pat))) = Some (Inr r)
           \<and> (r \<noteq> NOT_FOUND \<longrightarrow>
                 occurs_at string pat (unat r) \<and> (\<forall>s < unat r. \<not> occurs_at string pat s))"
  using bm_search_cases [OF assms]
proof
  assume "naive_search string pat 0 = None
          \<and> bm_search string (of_nat (length string)) pat (of_nat (length pat))
               (make_delta1 delta1 pat (int (length pat)))
               (make_delta2 delta2 pat (int (length pat)))
             = Some (Inr NOT_FOUND)"
  then show ?thesis by simp
next
  assume "\<exists>r. naive_search string pat 0 = Some r \<and> occurs_at string pat r
              \<and> unat (of_nat r :: size_t) = r \<and> (of_nat r :: size_t) \<noteq> NOT_FOUND
              \<and> bm_search string (of_nat (length string)) pat (of_nat (length pat))
                   (make_delta1 delta1 pat (int (length pat)))
                   (make_delta2 delta2 pat (int (length pat)))
                 = Some (Inr (of_nat r))"
  then obtain r where r: "naive_search string pat 0 = Some r" "occurs_at string pat r"
      "unat (of_nat r :: size_t) = r"
      "bm_search string (of_nat (length string)) pat (of_nat (length pat))
                   (make_delta1 delta1 pat (int (length pat)))
                   (make_delta2 delta2 pat (int (length pat)))
                 = Some (Inr (of_nat r))"
    by blast
  have "\<forall>s < r. \<not> occurs_at string pat s" using naive_search_Some [OF r(1)] by simp
  then show ?thesis using r by (intro exI [of _ "of_nat r"]) simp
qed

theorem bm_search_leftmost_witness:
  "[65, 65 :: byte] \<noteq> [] \<and> length [65, 65 :: byte] \<le> 2 ^ 30
   \<and> length [66, 65, 65, 65, 65 :: byte] + 2 * length [65, 65 :: byte] \<le> 2 ^ 64
   \<and> length (replicate 256 (0 :: int)) = 256 \<and> length [0, 0 :: int] = length [65, 65 :: byte]
   \<and> bm_search [66, 65, 65, 65, 65] 5 [65, 65] 2
        (make_delta1 (replicate 256 0) [65, 65] 2) (make_delta2 [0, 0] [65, 65] 2) = Some (Inr 1)
   \<and> (1 :: size_t) \<noteq> NOT_FOUND
   \<and> occurs_at [66, 65, 65, 65, 65] [65, 65] (unat (1 :: size_t))
   \<and> \<not> occurs_at [66, 65, 65, 65, 65] [65, 65] 0"
proof -
  have h1: "[65, 65 :: byte] \<noteq> []" by simp
  have h2: "length [65, 65 :: byte] \<le> 2 ^ 30" by simp
  have h3: "length [66, 65, 65, 65, 65 :: byte] + 2 * length [65, 65 :: byte] \<le> 2 ^ 64"
    by simp
  have h4: "length (replicate 256 (0 :: int)) = 256" by simp
  have h5: "length [0, 0 :: int] = length [65, 65 :: byte]" by simp
  have ev: "bm_search [66, 65, 65, 65, 65] 5 [65, 65] 2
        (make_delta1 (replicate 256 0) [65, 65] 2) (make_delta2 [0, 0] [65, 65] 2) = Some (Inr 1)"
    by code_simp
  have nf: "(1 :: size_t) \<noteq> NOT_FOUND" by (simp add: NOT_FOUND_def)
  from bm_search_leftmost [OF h1 h2 h3 h4 h5]
  obtain r where r: "bm_search [66, 65, 65, 65, 65] 5 [65, 65] 2
        (make_delta1 (replicate 256 0) [65, 65] 2) (make_delta2 [0, 0] [65, 65] 2) = Some (Inr r)"
    "r \<noteq> NOT_FOUND \<longrightarrow> occurs_at [66, 65, 65, 65, 65] [65, 65] (unat r)
        \<and> (\<forall>s < unat r. \<not> occurs_at [66, 65, 65, 65, 65] [65, 65] s)"
    by auto
  have r1: "r = 1" using r(1) ev by simp
  then have "occurs_at [66, 65, 65, 65, 65] [65, 65] (unat (1 :: size_t))
        \<and> (\<forall>s < unat (1 :: size_t). \<not> occurs_at [66, 65, 65, 65, 65] [65, 65] s)"
    using r(2) nf by blast
  then show ?thesis using ev nf h1 h2 h3 h4 h5 by simp
qed

text \<open>
  Claim C6 (degenerate inputs). When the buffer is shorter than the pattern, the call
  returns the sentinel whatever the four arrays are, even empty ones on which any read
  would be out of bounds: the loop is not entered and no byte is compared. And for
  every buffer and pattern within the size bounds the scanner returns a value.
\<close>

theorem bm_search_short_buffer:
  assumes "pat \<noteq> []" "length pat \<le> 2 ^ 30" "length string + 2 * length pat \<le> 2 ^ 64"
    and "length delta1 = 256" "length delta2 = length pat"
  shows "(length string < length pat \<longrightarrow>
            (\<forall>string' pat' d1 d2.
               bm_search string' (of_nat (length string)) pat' (of_nat (length pat)) d1 d2
                 = Some (Inr NOT_FOUND)))
       \<and> (\<exists>r. bm_search string (of_nat (length string)) pat (of_nat (length pat))
               (make_delta1 delta1 pat (int (length pat)))
               (make_delta2 delta2 pat (int (length pat))) = Some (Inr r))"
proof (intro conjI impI allI)
  show "\<exists>r. bm_search string (of_nat (length string)) pat (of_nat (length pat))
               (make_delta1 delta1 pat (int (length pat)))
               (make_delta2 delta2 pat (int (length pat))) = Some (Inr r)"
    using bm_search_naive [OF assms] by simp
next
  fix string' pat' :: "byte list" and d1 d2 :: "int list"
  assume short: "length string < length pat"
  have m1: "1 \<le> length pat" using assms(1) by (cases pat) simp_all
  have eq: "(of_nat (length pat) - 1 :: size_t) = of_nat (length pat - 1)" using m1 by simp
  have "length pat - 1 < 2 ^ 64" "length string < 2 ^ 64" using assms(2,3) m1 by simp_all
  then have iff: "(of_nat (length pat - 1) :: size_t) < of_nat (length string)
       \<longleftrightarrow> length pat - 1 < length string"
    by (rule of_nat_less_size_t)
  have neg: "\<not> (of_nat (length pat - 1) :: size_t) < of_nat (length string)"
  proof
    assume "(of_nat (length pat - 1) :: size_t) < of_nat (length string)"
    with iff have "length pat - 1 < length string" by blast
    then show False using short by arith
  qed
  show "bm_search string' (of_nat (length string)) pat' (of_nat (length pat)) d1 d2
                 = Some (Inr NOT_FOUND)"
    unfolding bm_search_def eq using neg by (rule bm_loop_exit)
qed

theorem bm_search_short_buffer_witness:
  "[65, 66, 67 :: byte] \<noteq> [] \<and> length [65, 66, 67 :: byte] \<le> 2 ^ 30
   \<and> length [65, 66 :: byte] + 2 * length [65, 66, 67 :: byte] \<le> 2 ^ 64
   \<and> length (replicate 256 (0 :: int)) = 256
   \<and> length [0, 0, 0 :: int] = length [65, 66, 67 :: byte]
   \<and> length [65, 66 :: byte] < length [65, 66, 67 :: byte]
   \<and> bm_search [65, 66] 2 [65, 66, 67] 3
        (make_delta1 (replicate 256 0) [65, 66, 67] 3) (make_delta2 [0, 0, 0] [65, 66, 67] 3)
        = Some (Inr NOT_FOUND)
   \<and> bm_search [] 2 [] 3 [] [] = Some (Inr NOT_FOUND)"
proof -
  have h1: "[65, 66, 67 :: byte] \<noteq> []" by simp
  have h2: "length [65, 66, 67 :: byte] \<le> 2 ^ 30" by simp
  have h3: "length [65, 66 :: byte] + 2 * length [65, 66, 67 :: byte] \<le> 2 ^ 64" by simp
  have h4: "length (replicate 256 (0 :: int)) = 256" by simp
  have h5: "length [0, 0, 0 :: int] = length [65, 66, 67 :: byte]" by simp
  have h6: "length [65, 66 :: byte] < length [65, 66, 67 :: byte]" by simp
  from bm_search_short_buffer [OF h1 h2 h3 h4 h5] h6
  have all: "\<forall>string' pat' d1 d2.
      bm_search string' (of_nat (length [65, 66 :: byte])) pat'
        (of_nat (length [65, 66, 67 :: byte])) d1 d2 = Some (Inr NOT_FOUND)"
    by blast
  have "bm_search [65, 66] 2 [65, 66, 67] 3
        (make_delta1 (replicate 256 0) [65, 66, 67] 3) (make_delta2 [0, 0, 0] [65, 66, 67] 3)
        = Some (Inr NOT_FOUND)"
    using all by simp
  moreover have "bm_search [] 2 [] 3 [] [] = Some (Inr NOT_FOUND)"
    using all by simp
  ultimately show ?thesis using h1 h2 h3 h4 h5 h6 by blast
qed

text \<open>
  Claim C9 (sentinel non-collision). A value returned that is not the sentinel is an
  offset at which the pattern fits inside the buffer, and it is numerically below
  \<open>NOT_FOUND\<close>; and when the pattern occurs somewhere in the buffer, the value returned
  is not the sentinel.
\<close>

theorem bm_search_sentinel:
  assumes "pat \<noteq> []" "length pat \<le> 2 ^ 30" "length string + 2 * length pat \<le> 2 ^ 64"
    and "length delta1 = 256" "length delta2 = length pat"
  shows "\<exists>r. bm_search string (of_nat (length string)) pat (of_nat (length pat))
               (make_delta1 delta1 pat (int (length pat)))
               (make_delta2 delta2 pat (int (length pat))) = Some (Inr r)
           \<and> (r \<noteq> NOT_FOUND \<longrightarrow>
                 unat r + length pat \<le> length string \<and> unat r < unat NOT_FOUND)
           \<and> ((\<exists>s. occurs_at string pat s) \<longrightarrow> r \<noteq> NOT_FOUND)"
  using bm_search_cases [OF assms]
proof
  assume none: "naive_search string pat 0 = None
          \<and> bm_search string (of_nat (length string)) pat (of_nat (length pat))
               (make_delta1 delta1 pat (int (length pat)))
               (make_delta2 delta2 pat (int (length pat)))
             = Some (Inr NOT_FOUND)"
  then have "\<forall>s. \<not> occurs_at string pat s"
    using naive_search_None [of string pat 0] by simp
  then show ?thesis using none by simp
next
  assume "\<exists>r. naive_search string pat 0 = Some r \<and> occurs_at string pat r
              \<and> unat (of_nat r :: size_t) = r \<and> (of_nat r :: size_t) \<noteq> NOT_FOUND
              \<and> bm_search string (of_nat (length string)) pat (of_nat (length pat))
                   (make_delta1 delta1 pat (int (length pat)))
                   (make_delta2 delta2 pat (int (length pat)))
                 = Some (Inr (of_nat r))"
  then obtain r where r: "occurs_at string pat r"
      "unat (of_nat r :: size_t) = r" "(of_nat r :: size_t) \<noteq> NOT_FOUND"
      "bm_search string (of_nat (length string)) pat (of_nat (length pat))
                   (make_delta1 delta1 pat (int (length pat)))
                   (make_delta2 delta2 pat (int (length pat)))
                 = Some (Inr (of_nat r))"
    by blast
  have m1: "1 \<le> length pat" using assms(1) by (cases pat) simp_all
  have fit: "r + length pat \<le> length string" using r(1) by (simp add: occurs_at_def)
  have "unat NOT_FOUND = 2 ^ 64 - 1"
    by (simp add: NOT_FOUND_def unsigned_minus_1_eq_mask mask_eq_exp_minus_1)
  moreover have "r < 2 ^ 64 - 1" using fit assms(3) m1 by simp
  ultimately have "unat (of_nat r :: size_t) < unat NOT_FOUND" using r(2) by simp
  then show ?thesis using r fit by (intro exI [of _ "of_nat r"]) simp
qed

theorem bm_search_sentinel_witness:
  "[66 :: byte] \<noteq> [] \<and> length [66 :: byte] \<le> 2 ^ 30
   \<and> length [65, 65, 66 :: byte] + 2 * length [66 :: byte] \<le> 2 ^ 64
   \<and> length (replicate 256 (0 :: int)) = 256 \<and> length [0 :: int] = length [66 :: byte]
   \<and> bm_search [65, 65, 66] 3 [66] 1
        (make_delta1 (replicate 256 0) [66] 1) (make_delta2 [0] [66] 1) = Some (Inr 2)
   \<and> (2 :: size_t) \<noteq> NOT_FOUND
   \<and> unat (2 :: size_t) + length [66 :: byte] \<le> length [65, 65, 66 :: byte]
   \<and> unat (2 :: size_t) < unat NOT_FOUND"
proof -
  have h1: "[66 :: byte] \<noteq> []" by simp
  have h2: "length [66 :: byte] \<le> 2 ^ 30" by simp
  have h3: "length [65, 65, 66 :: byte] + 2 * length [66 :: byte] \<le> 2 ^ 64" by simp
  have h4: "length (replicate 256 (0 :: int)) = 256" by simp
  have h5: "length [0 :: int] = length [66 :: byte]" by simp
  have ev: "bm_search [65, 65, 66] 3 [66] 1
        (make_delta1 (replicate 256 0) [66] 1) (make_delta2 [0] [66] 1) = Some (Inr 2)"
    by code_simp
  have nf: "(2 :: size_t) \<noteq> NOT_FOUND" by (simp add: NOT_FOUND_def)
  from bm_search_sentinel [OF h1 h2 h3 h4 h5]
  obtain r where r: "bm_search [65, 65, 66] 3 [66] 1
        (make_delta1 (replicate 256 0) [66] 1) (make_delta2 [0] [66] 1) = Some (Inr r)"
    "r \<noteq> NOT_FOUND \<longrightarrow>
       unat r + length [66 :: byte] \<le> length [65, 65, 66 :: byte] \<and> unat r < unat NOT_FOUND"
    by auto
  have "r = 2" using r(1) ev by simp
  then show ?thesis using r(2) ev nf h1 h2 h3 h4 h5 by blast
qed

text \<open>
  Claim C10 (in-bounds access, wrap-around at offset 0). The scanner returns a value and
  not \<open>OutOfBounds\<close>: every index it reads with is inside its array. When the pattern
  occurs at offset 0, the inner loop of the first window ends with \<open>j = -1\<close> and the
  cursor wrapped around to \<open>2 ^ 64 - 1\<close>, one more is 0, and 0 is what the scanner
  returns.
\<close>

theorem bm_search_in_bounds:
  assumes "pat \<noteq> []" "length pat \<le> 2 ^ 30" "length string + 2 * length pat \<le> 2 ^ 64"
    and "length delta1 = 256" "length delta2 = length pat"
  shows "(\<exists>r. bm_search string (of_nat (length string)) pat (of_nat (length pat))
               (make_delta1 delta1 pat (int (length pat)))
               (make_delta2 delta2 pat (int (length pat))) = Some (Inr r))
       \<and> (occurs_at string pat 0 \<longrightarrow>
            (\<exists>i. bm_inner string pat (of_nat (length pat) - 1)
                    (int_of_size_t (of_nat (length pat) - 1)) = Inr (i, - 1)
                \<and> unat i = 2 ^ 64 - 1 \<and> i + 1 = 0)
            \<and> bm_search string (of_nat (length string)) pat (of_nat (length pat))
                 (make_delta1 delta1 pat (int (length pat)))
                 (make_delta2 delta2 pat (int (length pat))) = Some (Inr 0))"
proof (intro conjI impI)
  show "\<exists>r. bm_search string (of_nat (length string)) pat (of_nat (length pat))
               (make_delta1 delta1 pat (int (length pat)))
               (make_delta2 delta2 pat (int (length pat))) = Some (Inr r)"
    using bm_search_naive [OF assms] by simp
next
  assume occ: "occurs_at string pat 0"
  then have "naive_search string pat 0 = Some 0" by (rule naive_search_here)
  then show "bm_search string (of_nat (length string)) pat (of_nat (length pat))
                 (make_delta1 delta1 pat (int (length pat)))
                 (make_delta2 delta2 pat (int (length pat))) = Some (Inr 0)"
    using bm_search_naive [OF assms] by simp
next
  assume occ: "occurs_at string pat 0"
  let ?m = "length pat"
  have m1: "1 \<le> ?m" using assms(1) by (cases pat) simp_all
  have fit: "0 + ?m \<le> length string" using occ by (simp add: occurs_at_def)
  have n64: "length string < 2 ^ 64" using assms(3) m1 by simp
  have at: "\<forall>k < ?m. string ! (0 + k) = pat ! k" using occ by (simp add: occurs_at_iff)
  have j0: "int_of_size_t (of_nat ?m - 1) = int ?m - 1"
    using m1 assms(2) by (rule int_of_size_t_pred)
  have i0: "(of_nat ?m - 1 :: size_t) = of_int (int 0 + (int ?m - 1))" by simp
  from bm_inner_spec [OF fit n64, of "int ?m - 1"] m1
  obtain j' where j': "- 1 \<le> j'" "j' \<le> int ?m - 1"
      "bm_inner string pat (of_int (int 0 + (int ?m - 1))) (int ?m - 1)
         = Inr (of_int (int 0 + j'), j')"
      "0 \<le> j' \<longrightarrow> string ! nat (int 0 + j') \<noteq> pat ! nat j'"
    by auto
  have "\<not> 0 \<le> j'"
  proof
    assume nn: "0 \<le> j'"
    then have "nat j' < ?m" using j'(2) m1 by simp
    then have "string ! (0 + nat j') = pat ! nat j'" using at by blast
    then show False using j'(4) nn by simp
  qed
  then have jm: "j' = - 1" using j'(1) by simp
  have "bm_inner string pat (of_nat ?m - 1) (int_of_size_t (of_nat ?m - 1))
         = Inr (of_int (int 0 + j'), j')"
    by (subst j0, subst i0) (rule j'(3))
  then have inner: "bm_inner string pat (of_nat ?m - 1) (int_of_size_t (of_nat ?m - 1))
         = Inr (- 1, - 1)"
    by (simp add: jm)
  have "unat (- 1 :: size_t) = 2 ^ 64 - 1"
    by (simp add: unsigned_minus_1_eq_mask mask_eq_exp_minus_1)
  then show "\<exists>i. bm_inner string pat (of_nat ?m - 1)
                    (int_of_size_t (of_nat ?m - 1)) = Inr (i, - 1)
                \<and> unat i = 2 ^ 64 - 1 \<and> i + 1 = 0"
    using inner by (intro exI [of _ "- 1"]) simp
qed

theorem bm_search_in_bounds_witness:
  "[65, 66 :: byte] \<noteq> [] \<and> length [65, 66 :: byte] \<le> 2 ^ 30
   \<and> length [65, 66, 67 :: byte] + 2 * length [65, 66 :: byte] \<le> 2 ^ 64
   \<and> length (replicate 256 (0 :: int)) = 256 \<and> length [0, 0 :: int] = length [65, 66 :: byte]
   \<and> occurs_at [65, 66, 67] [65, 66] 0
   \<and> bm_inner [65, 66, 67] [65, 66] 1 1 = Inr (- 1, - 1)
   \<and> bm_search [65, 66, 67] 3 [65, 66] 2
        (make_delta1 (replicate 256 0) [65, 66] 2) (make_delta2 [0, 0] [65, 66] 2) = Some (Inr 0)"
proof -
  have h1: "[65, 66 :: byte] \<noteq> []" by simp
  have h2: "length [65, 66 :: byte] \<le> 2 ^ 30" by simp
  have h3: "length [65, 66, 67 :: byte] + 2 * length [65, 66 :: byte] \<le> 2 ^ 64" by simp
  have h4: "length (replicate 256 (0 :: int)) = 256" by simp
  have h5: "length [0, 0 :: int] = length [65, 66 :: byte]" by simp
  have h6: "occurs_at [65, 66, 67] [65, 66] 0" by (simp add: occurs_at_def)
  have ev: "bm_inner [65, 66, 67] [65, 66] 1 1 = Inr (- 1, - 1)" by code_simp
  from bm_search_in_bounds [OF h1 h2 h3 h4 h5] h6
  have "bm_search [65, 66, 67] (of_nat (length [65, 66, 67 :: byte])) [65, 66]
        (of_nat (length [65, 66 :: byte]))
        (make_delta1 (replicate 256 0) [65, 66] (int (length [65, 66 :: byte])))
        (make_delta2 [0, 0] [65, 66] (int (length [65, 66 :: byte]))) = Some (Inr 0)"
    by blast
  then have "bm_search [65, 66, 67] 3 [65, 66] 2
        (make_delta1 (replicate 256 0) [65, 66] 2) (make_delta2 [0, 0] [65, 66] 2) = Some (Inr 0)"
    by simp
  then show ?thesis using ev h1 h2 h3 h4 h5 h6 by blast
qed

section \<open>The repeated-scan driver\<close>

text \<open>
  Searching the rest of the file from \<open>l\<close> on is searching the whole file from offset
  \<open>l\<close>, and the greedy scan is the naive search repeated after each occurrence. With
  these the driver loop, started at \<open>last = l\<close>, appends to what it has reported the
  offsets of the greedy scan from \<open>l\<close>.
\<close>

lemma naive_search_drop:
  "l \<le> length B \<Longrightarrow>
   naive_search (drop l B) P z = map_option (\<lambda>r. r - l) (naive_search B P (l + z))"
proof (induction "length B - (l + z)" arbitrary: z rule: less_induct)
  case less
  have dd: "drop z (drop l B) = drop (l + z) B" by (simp add: add.commute)
  show ?case
  proof (cases "l + z + length P \<le> length B")
    case True
    then have fit: "z + length P \<le> length (drop l B)" using less.prems by simp
    show ?thesis
    proof (cases "take (length P) (drop (l + z) B) = P")
      case eq: True
      have "naive_search (drop l B) P z = Some z"
        using fit eq dd by (subst naive_search.simps) simp
      moreover have "naive_search B P (l + z) = Some (l + z)"
        using True eq by (subst naive_search.simps) simp
      ultimately show ?thesis by simp
    next
      case ne: False
      have "naive_search (drop l B) P z = naive_search (drop l B) P (z + 1)"
        using fit ne dd by (subst naive_search.simps) simp
      moreover have "naive_search B P (l + z) = naive_search B P (l + (z + 1))"
        using True ne by (subst naive_search.simps) (simp add: add.assoc)
      moreover have "l + z < length B"
      proof (cases P)
        case Nil
        then show ?thesis using ne by simp
      next
        case (Cons a as)
        then show ?thesis using True by simp
      qed
      then have "naive_search (drop l B) P (z + 1)
          = map_option (\<lambda>r. r - l) (naive_search B P (l + (z + 1)))"
        using less.prems by (intro less.hyps) simp_all
      ultimately show ?thesis by simp
    qed
  next
    case False
    then have "\<not> z + length P \<le> length (drop l B)" using less.prems by simp
    then have "naive_search (drop l B) P z = None" by (rule naive_search_beyond)
    moreover have "naive_search B P (l + z) = None" using False by (rule naive_search_beyond)
    ultimately show ?thesis by simp
  qed
qed

lemma naive_scan_via_search:
  "P \<noteq> [] \<Longrightarrow>
   naive_scan B P s
     = (case naive_search B P s of None \<Rightarrow> [] | Some r \<Rightarrow> r # naive_scan B P (r + length P))"
proof (induction B P s rule: naive_search.induct)
  case (1 B P s)
  show ?case
  proof (cases "s + length P \<le> length B")
    case True
    show ?thesis
    proof (cases "take (length P) (drop s B) = P")
      case eq: True
      have "naive_search B P s = Some s" using True eq by (subst naive_search.simps) simp
      moreover have "naive_scan B P s = s # naive_scan B P (s + length P)"
        using True eq "1.prems" by (subst naive_scan.simps) simp
      ultimately show ?thesis by simp
    next
      case ne: False
      have "naive_search B P s = naive_search B P (s + 1)"
        using True ne by (subst naive_search.simps) simp
      moreover have "naive_scan B P s = naive_scan B P (s + 1)"
        using True ne "1.prems" by (subst naive_scan.simps) simp
      ultimately show ?thesis using "1.IH" [OF True ne "1.prems"] by simp
    qed
  next
    case False
    have "naive_search B P s = None" using False by (rule naive_search_beyond)
    moreover have "naive_scan B P s = []" using False by (subst naive_scan.simps) simp
    ultimately show ?thesis by simp
  qed
qed

lemma scan_loop_stop:
  "bm_search (drop (unat lastpos) file) (file_size - lastpos) pattern pattern_size delta1 delta2
     = Some (Inr NOT_FOUND) \<Longrightarrow>
   scan_loop file file_size pattern pattern_size delta1 delta2 lastpos reported
     = Some (Inr reported)"
  by (subst scan_loop.simps) simp

lemma scan_loop_match:
  "bm_search (drop (unat lastpos) file) (file_size - lastpos) pattern pattern_size delta1 delta2
     = Some (Inr next) \<Longrightarrow> next \<noteq> NOT_FOUND \<Longrightarrow>
   scan_loop file file_size pattern pattern_size delta1 delta2 lastpos reported
     = scan_loop file file_size pattern pattern_size delta1 delta2
         (lastpos + (next + pattern_size)) (reported @ [lastpos + next])"
  by (subst scan_loop.simps) simp

lemma scan_loop_naive:
  assumes "pat \<noteq> []" "length pat \<le> 2 ^ 30" "length file + 2 * length pat \<le> 2 ^ 64"
    and "length a1 = 256" "length a2 = length pat"
  shows "l \<le> length file \<Longrightarrow>
     scan_loop file (of_nat (length file)) pat (of_nat (length pat))
       (make_delta1 a1 pat (int (length pat))) (make_delta2 a2 pat (int (length pat)))
       (of_nat l) reported
     = Some (Inr (reported @ map of_nat (naive_scan file pat l)))"
proof (induction "length file - l" arbitrary: l reported rule: less_induct)
  case less
  let ?n = "length file" and ?m = "length pat"
  let ?d1 = "make_delta1 a1 pat (int ?m)" and ?d2 = "make_delta2 a2 pat (int ?m)"
  have m1: "1 \<le> ?m" using assms(1) by (cases pat) simp_all
  have l64: "l < 2 ^ 64" using less.prems assms(3) m1 by simp
  have ul: "unat (of_nat l :: size_t) = l" using l64 by (rule unat_of_nat_size_t)
  have sz: "(of_nat ?n - of_nat l :: size_t) = of_nat (length (drop l file))"
    using less.prems by simp
  have sub: "length (drop l file) + 2 * ?m \<le> 2 ^ 64" using assms(3) by simp
  have call: "bm_search (drop (unat (of_nat l :: size_t)) file) (of_nat ?n - of_nat l)
       pat (of_nat ?m) ?d1 ?d2
     = Some (Inr (case naive_search (drop l file) pat 0 of
                    Some r \<Rightarrow> of_nat r | None \<Rightarrow> NOT_FOUND))"
    unfolding ul sz using assms(1,2) sub assms(4,5) by (rule bm_search_naive)
  have rel: "naive_search (drop l file) pat 0
      = map_option (\<lambda>r. r - l) (naive_search file pat (l + 0))"
    using less.prems by (rule naive_search_drop)
  have via: "naive_scan file pat l
     = (case naive_search file pat l of None \<Rightarrow> []
        | Some r \<Rightarrow> r # naive_scan file pat (r + ?m))"
    using assms(1) by (rule naive_scan_via_search)
  show ?case
  proof (cases "naive_search file pat l")
    case None
    then have "naive_search (drop l file) pat 0 = None" using rel by simp
    then have "bm_search (drop (unat (of_nat l :: size_t)) file) (of_nat ?n - of_nat l)
       pat (of_nat ?m) ?d1 ?d2 = Some (Inr NOT_FOUND)"
      using call by simp
    then have "scan_loop file (of_nat ?n) pat (of_nat ?m) ?d1 ?d2 (of_nat l) reported
       = Some (Inr reported)"
      by (rule scan_loop_stop)
    then show ?thesis using via None by simp
  next
    case (Some r)
    from naive_search_Some [OF Some]
    have r: "l \<le> r" "occurs_at file pat r" by simp_all
    have fit: "r + ?m \<le> ?n" using r(2) by (simp add: occurs_at_def)
    define x where "x = r - l"
    have x: "l + x = r" using r(1) by (simp add: x_def)
    have "naive_search (drop l file) pat 0 = Some x" using rel Some by (simp add: x_def)
    then have res: "bm_search (drop (unat (of_nat l :: size_t)) file) (of_nat ?n - of_nat l)
       pat (of_nat ?m) ?d1 ?d2 = Some (Inr (of_nat x))"
      using call by simp
    have "x < 2 ^ 64 - 1" using fit x assms(3) m1 by simp
    then have nf: "(of_nat x :: size_t) \<noteq> NOT_FOUND" by (rule of_nat_neq_NOT_FOUND)
    have step: "scan_loop file (of_nat ?n) pat (of_nat ?m) ?d1 ?d2 (of_nat l) reported
       = scan_loop file (of_nat ?n) pat (of_nat ?m) ?d1 ?d2
           (of_nat l + (of_nat x + of_nat ?m)) (reported @ [of_nat l + of_nat x])"
      using res nf by (rule scan_loop_match)
    have e1: "(of_nat l + (of_nat x + of_nat ?m) :: size_t) = of_nat (r + ?m)"
      using x by (simp flip: x)
    have e2: "(of_nat l + of_nat x :: size_t) = of_nat r" by (simp flip: x)
    have "scan_loop file (of_nat ?n) pat (of_nat ?m) ?d1 ?d2 (of_nat (r + ?m))
            (reported @ [of_nat r])
       = Some (Inr ((reported @ [of_nat r]) @ map of_nat (naive_scan file pat (r + ?m))))"
      using fit r(1) m1 less.prems by (intro less.hyps) simp_all
    then show ?thesis using step via Some unfolding e1 e2 by simp
  qed
qed

lemma naive_scan_member:
  "x \<in> set (naive_scan B P s) \<Longrightarrow> s \<le> x \<and> occurs_at B P x"
proof (induction B P s rule: naive_scan.induct)
  case (1 B P s)
  show ?case
  proof (cases "P \<noteq> [] \<and> s + length P \<le> length B")
    case True
    show ?thesis
    proof (cases "take (length P) (drop s B) = P")
      case eq: True
      have "naive_scan B P s = s # naive_scan B P (s + length P)"
        using True eq by (subst naive_scan.simps) simp
      then have "x = s \<or> x \<in> set (naive_scan B P (s + length P))" using "1.prems" by simp
      then show ?thesis
      proof
        assume "x = s"
        then show ?thesis using True eq by (simp add: occurs_at_def)
      next
        assume "x \<in> set (naive_scan B P (s + length P))"
        then show ?thesis using "1.IH"(1) [OF True eq] by simp
      qed
    next
      case ne: False
      have "naive_scan B P s = naive_scan B P (s + 1)"
        using True ne by (subst naive_scan.simps) simp
      then show ?thesis using "1.IH"(2) [OF True ne] "1.prems" by simp
    qed
  next
    case False
    then have "naive_scan B P s = []" by (subst naive_scan.simps) auto
    then show ?thesis using "1.prems" by simp
  qed
qed

lemma naive_scan_gaps:
  "i < j \<Longrightarrow> j < length (naive_scan B P s) \<Longrightarrow>
   naive_scan B P s ! i + length P \<le> naive_scan B P s ! j"
proof (induction B P s arbitrary: i j rule: naive_scan.induct)
  case (1 B P s)
  show ?case
  proof (cases "P \<noteq> [] \<and> s + length P \<le> length B")
    case True
    show ?thesis
    proof (cases "take (length P) (drop s B) = P")
      case eq: True
      have unf: "naive_scan B P s = s # naive_scan B P (s + length P)"
        using True eq by (subst naive_scan.simps) simp
      obtain j' where j': "j = Suc j'" using "1.prems"(1) by (cases j) simp_all
      have j'len: "j' < length (naive_scan B P (s + length P))"
        using "1.prems"(2) unf j' by simp
      show ?thesis
      proof (cases i)
        case 0
        have "naive_scan B P (s + length P) ! j' \<in> set (naive_scan B P (s + length P))"
          using j'len by (rule nth_mem)
        then have "s + length P \<le> naive_scan B P (s + length P) ! j'"
          using naive_scan_member by blast
        then show ?thesis using unf j' 0 by simp
      next
        case (Suc i')
        then have "i' < j'" using "1.prems"(1) j' by simp
        then have "naive_scan B P (s + length P) ! i' + length P
            \<le> naive_scan B P (s + length P) ! j'"
          using j'len by (intro "1.IH"(1) [OF True eq])
        then show ?thesis using unf j' Suc by simp
      qed
    next
      case ne: False
      have "naive_scan B P s = naive_scan B P (s + 1)"
        using True ne by (subst naive_scan.simps) simp
      then show ?thesis using "1.IH"(2) [OF True ne] "1.prems" by simp
    qed
  next
    case False
    then have "naive_scan B P s = []" by (subst naive_scan.simps) auto
    then show ?thesis using "1.prems" by simp
  qed
qed

lemma scan_file_result:
  assumes "pat \<noteq> []" "length pat \<le> 2 ^ 30" "length file + 2 * length pat \<le> 2 ^ 64"
    and "length a1 = 256" "length a2 = length pat"
  shows "scan_file file (of_nat (length file)) pat (of_nat (length pat))
           (make_delta1 a1 pat (int (length pat))) (make_delta2 a2 pat (int (length pat)))
         = Some (Inr (map of_nat (naive_scan file pat 0)))"
    and "map unat (map of_nat (naive_scan file pat 0) :: size_t list) = naive_scan file pat 0"
proof -
  show "scan_file file (of_nat (length file)) pat (of_nat (length pat))
           (make_delta1 a1 pat (int (length pat))) (make_delta2 a2 pat (int (length pat)))
         = Some (Inr (map of_nat (naive_scan file pat 0)))"
    unfolding scan_file_def using scan_loop_naive [OF assms, of 0 "[]"] by simp
  have "\<forall>x \<in> set (naive_scan file pat 0). unat (of_nat x :: size_t) = x"
    using naive_scan_member occurrence_offset(1) [OF assms(1,3)] by blast
  then show "map unat (map of_nat (naive_scan file pat 0) :: size_t list) = naive_scan file pat 0"
    by (simp add: map_idI)
qed

lemma naive_scan_replicate:
  assumes "1 \<le> n"
  shows "i \<le> N div n \<Longrightarrow>
     naive_scan (replicate N b) (replicate n b) (i * n) = map (\<lambda>q. q * n) [i..<N div n]"
proof (induction "N div n - i" arbitrary: i)
  case 0
  then have i: "i = N div n" by simp
  have "N < (N div n) * n + n"
    using assms by (metis add.commute dividend_less_div_times less_eq_Suc_le mult.commute One_nat_def)
  then have "\<not> i * n + length (replicate n b) \<le> length (replicate N b)" using i by simp
  then have "naive_scan (replicate N b) (replicate n b) (i * n) = []"
    by (subst naive_scan.simps) simp
  then show ?case using i by simp
next
  case (Suc d)
  then have lt: "i < N div n" by simp
  then have "(i + 1) * n \<le> (N div n) * n" by (intro mult_le_mono1) simp
  also have "\<dots> \<le> N" by simp
  finally have fit: "i * n + n \<le> N" by (simp add: algebra_simps)
  have ne: "replicate n b \<noteq> []" using assms by auto
  have "min n (N - i * n) = n" using fit by simp
  then have tk: "take (length (replicate n b)) (drop (i * n) (replicate N b)) = replicate n b"
    by simp
  have "naive_scan (replicate N b) (replicate n b) (i * n)
      = i * n # naive_scan (replicate N b) (replicate n b) (i * n + length (replicate n b))"
    using ne fit tk by (subst naive_scan.simps) simp
  also have "i * n + length (replicate n b) = (i + 1) * n" by (simp add: algebra_simps)
  also have "naive_scan (replicate N b) (replicate n b) ((i + 1) * n)
      = map (\<lambda>q. q * n) [i + 1..<N div n]"
    using Suc.hyps(2) lt by (intro Suc.hyps(1)) simp_all
  finally show ?case using lt by (simp add: upt_conv_Cons)
qed

section \<open>Properties of the driver\<close>

text \<open>
  Claim C7 (driver equivalence). The driver loop returns; the offsets it reports are, in
  order, those of the naive greedy left-to-right non-overlapping scan; and of any two of
  them the later one is at least a pattern length after the earlier one.
\<close>

theorem scan_file_naive:
  assumes "pat \<noteq> []" "length pat \<le> 2 ^ 30" "length file + 2 * length pat \<le> 2 ^ 64"
    and "length delta1 = 256" "length delta2 = length pat"
  shows "\<exists>ms. scan_file file (of_nat (length file)) pat (of_nat (length pat))
                (make_delta1 delta1 pat (int (length pat)))
                (make_delta2 delta2 pat (int (length pat))) = Some (Inr ms)
            \<and> map unat ms = naive_scan file pat 0
            \<and> (\<forall>i j. i < j \<and> j < length ms \<longrightarrow> unat (ms ! i) + length pat \<le> unat (ms ! j))"
proof -
  define ms :: "size_t list" where "ms = map of_nat (naive_scan file pat 0)"
  have res: "scan_file file (of_nat (length file)) pat (of_nat (length pat))
                (make_delta1 delta1 pat (int (length pat)))
                (make_delta2 delta2 pat (int (length pat))) = Some (Inr ms)"
    unfolding ms_def using assms by (rule scan_file_result(1))
  have same: "map unat ms = naive_scan file pat 0"
    unfolding ms_def using assms by (rule scan_file_result(2))
  have "\<forall>i j. i < j \<and> j < length ms \<longrightarrow> unat (ms ! i) + length pat \<le> unat (ms ! j)"
  proof (intro allI impI)
    fix i j assume ij: "i < j \<and> j < length ms"
    then have len: "j < length (naive_scan file pat 0)" "i < length ms"
      using same by (auto simp: ms_def)
    have "naive_scan file pat 0 ! i + length pat \<le> naive_scan file pat 0 ! j"
      using ij len by (intro naive_scan_gaps) simp_all
    moreover have "naive_scan file pat 0 ! i = unat (ms ! i)"
      using len(2) same [symmetric] by simp
    moreover have "naive_scan file pat 0 ! j = unat (ms ! j)"
      using ij same [symmetric] by simp
    ultimately show "unat (ms ! i) + length pat \<le> unat (ms ! j)" by simp
  qed
  with res same show ?thesis by blast
qed

theorem scan_file_naive_witness:
  "[65, 66 :: byte] \<noteq> [] \<and> length [65, 66 :: byte] \<le> 2 ^ 30
   \<and> length [67, 65, 66, 65, 66, 68 :: byte] + 2 * length [65, 66 :: byte] \<le> 2 ^ 64
   \<and> length (replicate 256 (0 :: int)) = 256 \<and> length [0, 0 :: int] = length [65, 66 :: byte]
   \<and> scan_file [67, 65, 66, 65, 66, 68] 6 [65, 66] 2
        (make_delta1 (replicate 256 0) [65, 66] 2) (make_delta2 [0, 0] [65, 66] 2)
        = Some (Inr [1, 3])
   \<and> map unat [1, 3 :: size_t] = naive_scan [67, 65, 66, 65, 66, 68] [65, 66] 0
   \<and> unat ([1, 3 :: size_t] ! 0) + length [65, 66 :: byte] \<le> unat ([1, 3 :: size_t] ! 1)"
proof -
  have h1: "[65, 66 :: byte] \<noteq> []" by simp
  have h2: "length [65, 66 :: byte] \<le> 2 ^ 30" by simp
  have h3: "length [67, 65, 66, 65, 66, 68 :: byte] + 2 * length [65, 66 :: byte] \<le> 2 ^ 64"
    by simp
  have h4: "length (replicate 256 (0 :: int)) = 256" by simp
  have h5: "length [0, 0 :: int] = length [65, 66 :: byte]" by simp
  have ev: "scan_file [67, 65, 66, 65, 66, 68] 6 [65, 66] 2
        (make_delta1 (replicate 256 0) [65, 66] 2) (make_delta2 [0, 0] [65, 66] 2)
        = Some (Inr [1, 3])"
    by code_simp
  from scan_file_naive [OF h1 h2 h3 h4 h5]
  obtain ms where ms: "scan_file [67, 65, 66, 65, 66, 68] 6 [65, 66] 2
        (make_delta1 (replicate 256 0) [65, 66] 2) (make_delta2 [0, 0] [65, 66] 2) = Some (Inr ms)"
    "map unat ms = naive_scan [67, 65, 66, 65, 66, 68] [65, 66] 0"
    "\<forall>i j. i < j \<and> j < length ms \<longrightarrow>
        unat (ms ! i) + length [65, 66 :: byte] \<le> unat (ms ! j)"
    by auto
  have eq: "ms = [1, 3]" using ms(1) ev by simp
  have "(0::nat) < 1 \<and> 1 < length ms" by (simp add: eq)
  then have "unat (ms ! 0) + length [65, 66 :: byte] \<le> unat (ms ! 1)" using ms(3) by blast
  then show ?thesis using ms(2) ev h1 h2 h3 h4 h5 unfolding eq by blast
qed

text \<open>
  Claim C8 (all-identical bytes). For a pattern of \<open>n \<ge> 1\<close> copies of a byte and a
  buffer of \<open>n + k\<close> copies of it, the driver reports \<open>(n + k) div n\<close> offsets, and
  they are \<open>0, n, 2 n, \<dots>\<close> in this order. For \<open>n = 2\<close> and \<open>k = 2\<close> (pattern AA,
  buffer AAAA) these are 0 and 2.
\<close>

theorem scan_file_identical_bytes:
  assumes "1 \<le> n" "n \<le> 2 ^ 30" "(n + k) + 2 * n \<le> 2 ^ 64"
    and "length delta1 = 256" "length delta2 = n"
  shows "\<exists>ms. scan_file (replicate (n + k) b) (of_nat (n + k)) (replicate n b) (of_nat n)
                (make_delta1 delta1 (replicate n b) (int n))
                (make_delta2 delta2 (replicate n b) (int n)) = Some (Inr ms)
            \<and> length ms = (n + k) div n
            \<and> map unat ms = map (\<lambda>q. q * n) [0..<(n + k) div n]"
proof -
  let ?B = "replicate (n + k) b" and ?P = "replicate n b"
  define ms :: "size_t list" where "ms = map of_nat (naive_scan ?B ?P 0)"
  have h: "?P \<noteq> []" "length ?P \<le> 2 ^ 30" "length ?B + 2 * length ?P \<le> 2 ^ 64"
      "length delta1 = 256" "length delta2 = length ?P"
    using assms by auto
  have "scan_file ?B (of_nat (length ?B)) ?P (of_nat (length ?P))
                (make_delta1 delta1 ?P (int (length ?P)))
                (make_delta2 delta2 ?P (int (length ?P))) = Some (Inr ms)"
    unfolding ms_def using h by (rule scan_file_result(1))
  then have res: "scan_file ?B (of_nat (n + k)) ?P (of_nat n)
                (make_delta1 delta1 ?P (int n)) (make_delta2 delta2 ?P (int n)) = Some (Inr ms)"
    by simp
  have "map unat ms = naive_scan ?B ?P 0"
    unfolding ms_def using h by (rule scan_file_result(2))
  also have "naive_scan ?B ?P 0 = map (\<lambda>q. q * n) [0..<(n + k) div n]"
    using naive_scan_replicate [OF assms(1), of 0 "n + k" b] by simp
  finally have same: "map unat ms = map (\<lambda>q. q * n) [0..<(n + k) div n]" .
  then have "length (map unat ms) = length (map (\<lambda>q. q * n) [0..<(n + k) div n])" by simp
  then have "length ms = (n + k) div n" by simp
  with res same show ?thesis by blast
qed

theorem scan_file_identical_bytes_witness:
  "(1 :: nat) \<le> 2 \<and> (2 :: nat) \<le> 2 ^ 30 \<and> ((2 :: nat) + 2) + 2 * 2 \<le> 2 ^ 64
   \<and> length (replicate 256 (0 :: int)) = 256 \<and> length [0, 0 :: int] = 2
   \<and> scan_file [65, 65, 65, 65] 4 [65, 65] 2
        (make_delta1 (replicate 256 0) [65, 65] 2) (make_delta2 [0, 0] [65, 65] 2)
        = Some (Inr [0, 2])
   \<and> length [0, 2 :: size_t] = (2 + 2) div 2
   \<and> map unat [0, 2 :: size_t] = [0, 2]"
proof -
  have h1: "(1 :: nat) \<le> 2" by simp
  have h2: "(2 :: nat) \<le> 2 ^ 30" by simp
  have h3: "((2 :: nat) + 2) + 2 * 2 \<le> 2 ^ 64" by simp
  have h4: "length (replicate 256 (0 :: int)) = 256" by simp
  have h5: "length [0, 0 :: int] = 2" by simp
  have ev: "scan_file [65, 65, 65, 65] 4 [65, 65] 2
        (make_delta1 (replicate 256 0) [65, 65] 2) (make_delta2 [0, 0] [65, 65] 2)
        = Some (Inr [0, 2])"
    by code_simp
  have rep: "replicate (2 + 2) (65 :: byte) = [65, 65, 65, 65]" "replicate 2 (65 :: byte) = [65, 65]"
    by (simp_all add: numeral_eq_Suc)
  from scan_file_identical_bytes [OF h1 h2 h3 h4 h5, of 65]
  obtain ms where ms: "scan_file (replicate (2 + 2) 65) (of_nat (2 + 2)) (replicate 2 65) (of_nat 2)
        (make_delta1 (replicate 256 0) (replicate 2 65) (int 2))
        (make_delta2 [0, 0] (replicate 2 65) (int 2)) = Some (Inr ms)"
    "length ms = (2 + 2) div 2"
    by blast
  have "scan_file [65, 65, 65, 65] 4 [65, 65] 2
        (make_delta1 (replicate 256 0) [65, 65] 2) (make_delta2 [0, 0] [65, 65] 2) = Some (Inr ms)"
    using ms(1) unfolding rep by simp
  then have eq: "ms = [0, 2]" using ev by simp
  have "length [0, 2 :: size_t] = (2 + 2) div 2" using ms(2) unfolding eq .
  then show ?thesis using ev h1 h2 h3 h4 h5 by simp
qed

end
